theory Spec2Isabelle
  imports Main "HOL-Library.Sublist"
begin

section \<open>Text, character classes and the regular expressions of the rule table\<close>

text \<open>
  The script \<^verbatim>\<open>react_native_fix_hermes_decomp.py\<close> reads a file as text, applies two
  \<^verbatim>\<open>re.sub\<close> substitutions to it a given number of times and writes the result.
  Text is a \<^typ>\<open>string\<close>. The two patterns only tell apart the characters
  \<^verbatim>\<open>. @ = / \<close>, the space, the backslash, the newline and the ASCII word characters;
  every other character (each byte of a code point beyond ASCII included) is
  treated alike by both of them.
\<close>

abbreviation backslash :: char where "backslash \<equiv> CHR 0x5C"
abbreviation newline :: char where "newline \<equiv> CHR 0x0A"

text \<open>
  A bracket expression of the pattern language: a list of inclusive ranges, either
  listed (\<^verbatim>\<open>[a-z_]\<close>) or excluded (\<^verbatim>\<open>[^...]\<close>).
\<close>

datatype charclass = Among "(char \<times> char) list" | Except "(char \<times> char) list"

definition in_ranges :: "(char \<times> char) list \<Rightarrow> char \<Rightarrow> bool" where
  "in_ranges rs c =
     list_ex (\<lambda>(lo, hi). (of_char lo :: nat) \<le> of_char c \<and> (of_char c :: nat) \<le> of_char hi) rs"

fun in_class :: "charclass \<Rightarrow> char \<Rightarrow> bool" where
  "in_class (Among rs) c = in_ranges rs c"
| "in_class (Except rs) c = (\<not> in_ranges rs c)"

text \<open>
  The fragment of Python's pattern language that the rule table uses: a literal
  character, one character of a class, a greedy star of a class, a sequence and a
  capture group. (\<^verbatim>\<open>k+\<close> is \<^verbatim>\<open>k\<close> followed by \<^verbatim>\<open>k*\<close>.)
\<close>

datatype regex =
    Lit char
  | Cls charclass
  | Star charclass
  | Seq regex regex
  | Group regex

text \<open>
  \<open>matches p s\<close> lists every way in which the backtracking matcher can match \<open>p\<close> at
  the start of \<open>s\<close>, in the order in which it tries them: the captured groups (in the
  order of their opening parentheses) and the text left after the match. A greedy star
  first tries to take one more character and only then to stop. The match that
  \<^verbatim>\<open>re\<close> reports at a position is the head of this list.
\<close>

fun matches :: "regex \<Rightarrow> string \<Rightarrow> (string list \<times> string) list" where
  "matches (Lit c) s =
     (case s of [] \<Rightarrow> [] | x # xs \<Rightarrow> if x = c then [([], xs)] else [])"
| "matches (Cls k) s =
     (case s of [] \<Rightarrow> [] | x # xs \<Rightarrow> if in_class k x then [([], xs)] else [])"
| "matches (Star k) s =
     (case s of [] \<Rightarrow> [] | x # xs \<Rightarrow> if in_class k x then matches (Star k) xs else [])
     @ [([], s)]"
| "matches (Seq a b) s =
     concat (map (\<lambda>(g1, s1). map (\<lambda>(g2, s2). (g1 @ g2, s2)) (matches b s1)) (matches a s))"
| "matches (Group a) s =
     map (\<lambda>(g, s1). (take (length s - length s1) s # g, s1)) (matches a s)"

text \<open>A replacement template: literal text and references \<^verbatim>\<open>\1\<close>, \<^verbatim>\<open>\2\<close>, ... to groups.\<close>

datatype piece = Text string | Backref nat

fun expand_piece :: "string list \<Rightarrow> piece \<Rightarrow> string" where
  "expand_piece gs (Text s) = s"
| "expand_piece gs (Backref n) = (if 0 < n \<and> n \<le> length gs then gs ! (n - 1) else [])"

definition expand :: "piece list \<Rightarrow> string list \<Rightarrow> string" where
  "expand template gs = concat (map (expand_piece gs) template)"

text \<open>
  \<^verbatim>\<open>re.sub(pattern, repl, string)\<close>: scan from the left; where the pattern matches, emit
  the expanded template and go on after the match; elsewhere copy one character.
  A match of no characters emits the template and copies the next character.
\<close>

function re_sub :: "regex \<Rightarrow> piece list \<Rightarrow> string \<Rightarrow> string" where
  "re_sub p t s =
     (case matches p s of
        [] \<Rightarrow> (case s of [] \<Rightarrow> [] | c # cs \<Rightarrow> c # re_sub p t cs)
      | (gs, rest) # _ \<Rightarrow>
          if length rest < length s then expand t gs @ re_sub p t rest
          else expand t gs @ (case s of [] \<Rightarrow> [] | c # cs \<Rightarrow> c # re_sub p t cs))"
  by pat_completeness auto
termination
  by (relation "measure (\<lambda>(p, t, s). length s)") auto

declare re_sub.simps [simp del]

section \<open>The rule table and the rewriting loop\<close>

definition DEFAULT_ITERATIONS_COUNT :: int where
  "DEFAULT_ITERATIONS_COUNT = 100"

definition DEFAULT_APPEND_OUTPUT_EXT :: string where
  "DEFAULT_APPEND_OUTPUT_EXT = ''.fixed.js''"

definition word_char :: charclass where
  "word_char = Among [(CHR ''a'', CHR ''z''), (CHR ''A'', CHR ''Z''),
                      (CHR ''0'', CHR ''9''), (CHR ''_'', CHR ''_'')]"

definition not_newline :: charclass where
  "not_newline = Except [(newline, newline)]"

text \<open>The pattern \<^verbatim>\<open>\.(@@[a-zA-Z0-9_]+)\<close> and its replacement, the text of group 1 between
  a bracket with a backtick and a backtick with a bracket.\<close>

definition dotted_special_pattern :: regex where
  "dotted_special_pattern =
     Seq (Lit (CHR ''.''))
         (Group (Seq (Lit (CHR ''@'')) (Seq (Lit (CHR ''@''))
                   (Seq (Cls word_char) (Star word_char)))))"

definition dotted_special_template :: "piece list" where
  "dotted_special_template = [Text ''[`'', Backref 1, Text ''`]'']"

text \<open>The pattern \<^verbatim>\<open>(= /[^\n]*)(\\\\/)([^\n]*/)\<close> (two literal backslashes and a slash in
  group 2) and its replacement: group 1, one backslash, a slash, group 3.\<close>

definition over_escaped_pattern :: regex where
  "over_escaped_pattern =
     Seq (Group (Seq (Lit (CHR ''='')) (Seq (Lit (CHR '' '')) (Seq (Lit (CHR ''/''))
                   (Star not_newline)))))
         (Seq (Group (Seq (Lit backslash) (Seq (Lit backslash) (Lit (CHR ''/'')))))
              (Group (Seq (Star not_newline) (Lit (CHR ''/'')))))"

definition over_escaped_template :: "piece list" where
  "over_escaped_template = [Backref 1, Text [backslash, CHR ''/''], Backref 3]"

text \<open>The dictionary \<^verbatim>\<open>replacements\<close>, in insertion order, which is the order in which
  Python iterates over it.\<close>

definition replacements :: "(regex \<times> piece list) list" where
  "replacements =
     [(dotted_special_pattern, dotted_special_template),
      (over_escaped_pattern, over_escaped_template)]"

text \<open>The inner loop \<^verbatim>\<open>for regex in replacements\<close>.\<close>

definition apply_replacements :: "string \<Rightarrow> string" where
  "apply_replacements data =
     fold (\<lambda>(regex, replace_with) d. re_sub regex replace_with d) replacements data"

text \<open>The outer loop \<^verbatim>\<open>for i in range(0, iterations)\<close>; the range of a count below 1 is
  empty.\<close>

definition rewrite_loop :: "int \<Rightarrow> string \<Rightarrow> string" where
  "rewrite_loop iterations data =
     fold (\<lambda>i d. apply_replacements d) [0 .. iterations - 1] data"

section \<open>Files and the command line\<close>

datatype io_error = ReadError | WriteError

text \<open>
  The file system as the script sees it: the text that reading a path in text mode
  yields (\<open>None\<close> where \<^verbatim>\<open>open\<close> or \<^verbatim>\<open>read\<close> raises: no such file, no permission, text
  that does not decode) and the paths that can be opened for writing.
\<close>

record filesystem =
  readable :: "string \<rightharpoonup> string"
  writable :: "string \<Rightarrow> bool"

definition read_text :: "filesystem \<Rightarrow> string \<Rightarrow> io_error + string" where
  "read_text fs fpath = (case readable fs fpath of None \<Rightarrow> Inl ReadError | Some data \<Rightarrow> Inr data)"

definition write_text :: "filesystem \<Rightarrow> string \<Rightarrow> string \<Rightarrow> io_error + filesystem" where
  "write_text fs fpath data =
     (if writable fs fpath then Inr (fs\<lparr>readable := (readable fs)(fpath \<mapsto> data)\<rparr>)
      else Inl WriteError)"

definition fix_react_native_hermes_decompilation ::
    "filesystem \<Rightarrow> string \<Rightarrow> int \<Rightarrow> io_error + string" where
  "fix_react_native_hermes_decompilation fs fpath iterations =
     (case read_text fs fpath of
        Inl e \<Rightarrow> Inl e
      | Inr data \<Rightarrow> Inr (rewrite_loop iterations data))"

text \<open>
  The parsed command line. \<^verbatim>\<open>-h\<close> or \<^verbatim>\<open>--help\<close> anywhere on the command line prints the
  usage and exits with status 0 before the arguments are parsed.
\<close>

record arguments =
  file_arg :: string
  out :: "string option"
  iterations :: int
  verbose :: bool

datatype invocation = Help | Parsed arguments

text \<open>The main program: the file system it leaves and its exit status. An exception
  that nothing catches ends the interpreter with status 1.\<close>

fun main :: "filesystem \<Rightarrow> invocation \<Rightarrow> filesystem \<times> int" where
  "main fs Help = (fs, 0)"
| "main fs (Parsed args) =
     (let out_fpath = (case out args of
                         None \<Rightarrow> file_arg args @ DEFAULT_APPEND_OUTPUT_EXT
                       | Some p \<Rightarrow> if p = [] then file_arg args @ DEFAULT_APPEND_OUTPUT_EXT else p)
      in case fix_react_native_hermes_decompilation fs (file_arg args) (iterations args) of
           Inl e \<Rightarrow> (fs, 1)
         | Inr FIXED_DATA \<Rightarrow>
             (case write_text fs out_fpath FIXED_DATA of
                Inl e \<Rightarrow> (fs, 1)
              | Inr fs' \<Rightarrow> (fs', 0)))"

section \<open>The rules and one pass, named as the specification names them\<close>

text \<open>Rule 1 is the substitution of the first entry of the table, rule 2 that of the
  second; one pass is rule 1 on the whole text, then rule 2 on what rule 1 returns.\<close>

definition dotted_special_rule :: "string \<Rightarrow> string" where
  "dotted_special_rule text = re_sub dotted_special_pattern dotted_special_template text"

definition over_escaped_rule :: "string \<Rightarrow> string" where
  "over_escaped_rule text = re_sub over_escaped_pattern over_escaped_template text"

definition single_pass :: "string \<Rightarrow> string" where
  "single_pass text = over_escaped_rule (dotted_special_rule text)"

section \<open>Notions used to state the claims\<close>

abbreviation is_word :: "char \<Rightarrow> bool" where
  "is_word \<equiv> in_class word_char"

abbreviation not_nl :: "char \<Rightarrow> bool" where
  "not_nl \<equiv> in_class not_newline"

text \<open>The over-escaped sequence: two backslashes and a slash.\<close>

abbreviation over_escaped :: string where
  "over_escaped \<equiv> [backslash, backslash, CHR ''/'']"

text \<open>What may follow a line: nothing, or text that starts with the newline.\<close>

abbreviation line_end :: "string \<Rightarrow> bool" where
  "line_end tail \<equiv> (tail = [] \<or> hd tail = newline)"

text \<open>Two parts of the second pattern: group 3 without its parentheses, and groups 2
  and 3 together.\<close>

definition closing_slash :: regex where
  "closing_slash = Seq (Star not_newline) (Lit (CHR ''/''))"

definition escape_and_rest :: regex where
  "escape_and_rest =
     Seq (Group (Seq (Lit backslash) (Seq (Lit backslash) (Lit (CHR ''/'')))))
         (Group closing_slash)"

text \<open>
  The matches of the second pattern once \<^verbatim>\<open>= /\<close> has been read: \<open>acc\<close> is what group
  1 holds so far and \<open>t\<close> the text that its star may still take.
\<close>

definition group1_tail :: "string \<Rightarrow> string \<Rightarrow> (string list \<times> string) list" where
  "group1_tail acc t =
     concat (map (\<lambda>(g1, s1). map (\<lambda>(g2, s2). ((acc @ take (length t - length s1) t) # g2, s2))
                                   (matches escape_and_rest s1))
                 (matches (Star not_newline) t))"

text \<open>
  \<open>repairable t\<close>: the first line of \<open>t\<close> holds an over-escaped sequence with a slash
  somewhere after it on that line (lemma \<open>repairable_iff\<close> below).
  \<open>has_over_escaped s\<close>: somewhere in \<open>s\<close> the text \<^verbatim>\<open>= /\<close> is followed, on the same
  line, by such a sequence: the second pattern occurs in \<open>s\<close>.
  \<open>has_dotted_special s\<close>: somewhere in \<open>s\<close> a dot is followed by two at-signs and a
  word character: the first pattern occurs in \<open>s\<close>.
\<close>

fun repairable :: "string \<Rightarrow> bool" where
  "repairable [] = False"
| "repairable (x # xs) =
     ((x \<noteq> newline \<and> repairable xs)
      \<or> (prefix over_escaped (x # xs)
          \<and> CHR ''/'' \<in> set (takeWhile (\<lambda>c. c \<noteq> newline) (drop 3 (x # xs)))))"

fun has_over_escaped :: "string \<Rightarrow> bool" where
  "has_over_escaped [] = False"
| "has_over_escaped (c # cs) =
     ((prefix ''= /'' (c # cs) \<and> repairable (drop 3 (c # cs))) \<or> has_over_escaped cs)"

fun has_dotted_special :: "string \<Rightarrow> bool" where
  "has_dotted_special [] = False"
| "has_dotted_special (c # cs) =
     ((prefix ''.@@'' (c # cs)
        \<and> (case drop 3 (c # cs) of [] \<Rightarrow> False | e # _ \<Rightarrow> in_class word_char e))
      \<or> has_dotted_special cs)"

text \<open>What may precede a line: nothing, or text that ends with a newline.\<close>

abbreviation line_start :: "string \<Rightarrow> bool" where
  "line_start before \<equiv> (before = [] \<or> last before = newline)"

text \<open>The number of over-escaped sequences in a text.\<close>

fun count_over_escaped :: "string \<Rightarrow> nat" where
  "count_over_escaped [] = 0"
| "count_over_escaped (c # cs) =
     (if prefix over_escaped (c # cs) then 1 else 0) + count_over_escaped cs"

text \<open>
  A character that can neither belong to an occurrence of the first pattern nor
  start one.
\<close>

definition separator :: "char \<Rightarrow> bool" where
  "separator c \<longleftrightarrow> \<not> is_word c \<and> c \<noteq> CHR ''.'' \<and> c \<noteq> CHR ''@''"

text \<open>
  The first rule as the specification words it, to be compared with
  \<open>dotted_special_rule\<close>: scanning from the left, a dot followed by two at-signs and an
  identifier (the longest run of letters, digits and underscores, not empty) becomes
  the identifier with its at-signs between \<^verbatim>\<open>[`\<close> and \<^verbatim>\<open>`]\<close>; every other character is
  kept.
\<close>

function dotted_rewrite :: "string \<Rightarrow> string" where
  "dotted_rewrite [] = []"
| "dotted_rewrite (c # cs) =
     (if prefix ''.@@'' (c # cs) \<and> takeWhile is_word (drop 3 (c # cs)) \<noteq> []
      then ''[`@@'' @ takeWhile is_word (drop 3 (c # cs)) @ ''`]''
             @ dotted_rewrite (dropWhile is_word (drop 3 (c # cs)))
      else c # dotted_rewrite cs)"
  by pat_completeness auto

termination
proof (relation "measure length")
  fix c :: char and cs :: string
  have "length (dropWhile is_word (drop 3 (c # cs))) \<le> length (drop 3 (c # cs))"
    by (rule length_dropWhile_le)
  then show "(dropWhile is_word (drop 3 (c # cs)), c # cs) \<in> measure length"
    by simp
qed simp_all

section \<open>The loop\<close>

lemma apply_replacements_single_pass: "apply_replacements data = single_pass data"
  by (simp add: apply_replacements_def replacements_def single_pass_def
      over_escaped_rule_def dotted_special_rule_def)

lemma fold_ignoring_index: "fold (\<lambda>i d. f d) xs d = (f ^^ length xs) d"
  by (induction xs arbitrary: d) (simp_all add: funpow_swap1)

lemma rewrite_loop_funpow: "rewrite_loop n text = (apply_replacements ^^ nat n) text"
  by (simp add: rewrite_loop_def fold_ignoring_index)

lemma rewrite_loop_step:
  "0 \<le> k \<Longrightarrow> rewrite_loop (k + 1) text = apply_replacements (rewrite_loop k text)"
  by (simp add: rewrite_loop_funpow nat_add_distrib)

lemma funpow_fixed: "f x = x \<Longrightarrow> (f ^^ m) x = x"
  by (induction m) simp_all

section \<open>The backtracking matcher\<close>

lemma star_Nil [simp]: "matches (Star k) [] = [([], [])]"
  by simp

lemma star_Cons [simp]:
  "matches (Star k) (x # xs) =
     (if in_class k x then matches (Star k) xs else []) @ [([], x # xs)]"
  by simp

declare matches.simps(3) [simp del]

lemma star_not_Nil [simp]: "matches (Star k) s \<noteq> []"
  by (cases s) simp_all

lemma star_hd: "hd (matches (Star k) s) = ([], dropWhile (in_class k) s)"
  by (induction s) simp_all

lemma star_groups: "(g, r) \<in> set (matches (Star k) s) \<Longrightarrow> g = []"
  by (induction s) (auto split: if_splits)

lemma star_suffix: "(g, r) \<in> set (matches (Star k) s) \<Longrightarrow> suffix r s"
  by (induction s) (auto simp: suffix_Cons split: if_splits)

lemma matches_suffix: "(g, r) \<in> set (matches p s) \<Longrightarrow> suffix r s"
proof (induction p arbitrary: s g r)
  case (Lit c)
  then show ?case by (auto simp: suffix_Cons split: list.splits if_splits)
next
  case (Cls k)
  then show ?case by (auto simp: suffix_Cons split: list.splits if_splits)
next
  case (Star k)
  then show ?case by (rule star_suffix)
next
  case (Seq a b)
  then show ?case by (fastforce intro: suffix_order.trans)
next
  case (Group a)
  then show ?case by auto
qed

lemma take_length_dropWhile:
  "take (length s - length (dropWhile P s)) s = takeWhile P s"
proof -
  have "length s - length (dropWhile P s) = length (takeWhile P s)"
    by (metis add_diff_cancel_right' length_append takeWhile_dropWhile_id)
  then show ?thesis
    by (metis append_eq_conv_conj takeWhile_dropWhile_id)
qed

lemma dotted_matches_Cons:
  "matches dotted_special_pattern (x # s) =
     (if x = CHR ''.'' then
        (case s of
           a # b # c # r \<Rightarrow>
             if a = CHR ''@'' \<and> b = CHR ''@'' \<and> is_word c
             then map (\<lambda>(g, s1). ([take (length (a # b # c # r) - length s1) (a # b # c # r)], s1))
                      (matches (Star word_char) r)
             else []
         | _ \<Rightarrow> [])
      else [])"
  unfolding dotted_special_pattern_def
  by (auto split: list.splits simp: comp_def case_prod_unfold dest: star_groups)

lemma dotted_matches_Nil: "matches dotted_special_pattern [] = []"
  unfolding dotted_special_pattern_def by simp

lemma re_sub_hit:
  "matches p s = (gs, rest) # ms \<Longrightarrow> length rest < length s
     \<Longrightarrow> re_sub p t s = expand t gs @ re_sub p t rest"
  by (subst re_sub.simps) simp

lemma re_sub_miss: "matches p (c # cs) = [] \<Longrightarrow> re_sub p t (c # cs) = c # re_sub p t cs"
  by (subst re_sub.simps) simp

lemma re_sub_Nil: "matches p [] = [] \<Longrightarrow> re_sub p t [] = []"
  by (subst re_sub.simps) simp

lemma dotted_rule_Nil [simp]: "dotted_special_rule [] = []"
  by (simp add: dotted_special_rule_def re_sub_Nil dotted_matches_Nil)

lemma dotted_matches_hit:
  assumes "is_word c"
  shows "\<exists>ms. matches dotted_special_pattern (''.@@'' @ c # r)
           = ([''@@'' @ c # takeWhile is_word r], dropWhile is_word r) # ms"
proof -
  let ?L = "matches (Star word_char) r"
  let ?f = "\<lambda>(g, s1). ([take (length (CHR ''@'' # CHR ''@'' # c # r) - length s1)
                          (CHR ''@'' # CHR ''@'' # c # r)], s1 :: string)"
  have m: "matches dotted_special_pattern (''.@@'' @ c # r) = map ?f ?L"
    using assms by (simp add: dotted_matches_Cons)
  obtain tl where L: "?L = ([], dropWhile is_word r) # tl"
    by (metis star_hd star_not_Nil list.collapse)
  have len: "length (dropWhile is_word r) \<le> length r"
    by (simp add: length_dropWhile_le)
  have "take (Suc (Suc (Suc (length r))) - length (dropWhile is_word r)) (CHR ''@'' # CHR ''@'' # c # r)
        = ''@@'' @ c # take (length r - length (dropWhile is_word r)) r"
    using len by (simp add: Suc_diff_le)
  then have "?f ([], dropWhile is_word r) = ([''@@'' @ c # takeWhile is_word r], dropWhile is_word r)"
    by (simp add: take_length_dropWhile)
  then show ?thesis unfolding m L by simp
qed

lemma dotted_rule_hit:
  assumes "is_word c"
  shows "dotted_special_rule (''.@@'' @ c # r)
           = ''[`@@'' @ c # takeWhile is_word r @ ''`]'' @ dotted_special_rule (dropWhile is_word r)"
proof -
  obtain ms where m: "matches dotted_special_pattern (''.@@'' @ c # r)
           = ([''@@'' @ c # takeWhile is_word r], dropWhile is_word r) # ms"
    using dotted_matches_hit [OF assms] by blast
  have len: "length (dropWhile is_word r) < length (''.@@'' @ c # r)"
    using length_dropWhile_le [of is_word r] by simp
  show ?thesis
    unfolding dotted_special_rule_def re_sub_hit [OF m len]
    by (simp add: expand_def dotted_special_template_def)
qed

lemma dotted_rule_miss:
  assumes "\<not> (\<exists>c r. x # s = ''.@@'' @ c # r \<and> is_word c)"
  shows "dotted_special_rule (x # s) = x # dotted_special_rule s"
proof -
  have "matches dotted_special_pattern (x # s) = []"
    using assms by (auto simp: dotted_matches_Cons split: list.splits)
  then show ?thesis
    unfolding dotted_special_rule_def by (rule re_sub_miss)
qed

section \<open>Matches of the second pattern\<close>

lemma in_single_range: "in_ranges [(a, a)] c \<longleftrightarrow> c = a"
proof -
  have "in_ranges [(a, a)] c \<longleftrightarrow> (of_char c :: nat) = of_char a"
    unfolding in_ranges_def by (simp only: list_ex_Cons_iff list_ex_Nil_iff prod.case) auto
  then show ?thesis by (simp only: of_char_eq_iff)
qed

lemma not_nl_iff [simp]: "in_class not_newline c \<longleftrightarrow> c \<noteq> newline"
  unfolding not_newline_def by (simp only: in_class.simps in_single_range)

lemma map_nil_groups: "map (\<lambda>(g2, s2). ([] @ g2, s2)) L = L"
  by (induction L) auto

lemma star_seq_Nil: "matches (Seq (Star k) q) [] = matches q []"
  by (simp add: map_nil_groups)

lemma star_seq_Cons:
  "matches (Seq (Star k) q) (x # xs) =
     (if in_class k x then matches (Seq (Star k) q) xs else []) @ matches q (x # xs)"
  by (simp add: map_nil_groups)

lemma closing_Nil [simp]: "matches closing_slash [] = []"
  by (simp add: closing_slash_def)

lemma closing_Cons [simp]:
  "matches closing_slash (x # xs) =
     (if x \<noteq> newline then matches closing_slash xs else [])
     @ (if x = CHR ''/'' then [([], xs)] else [])"
  unfolding closing_slash_def by (simp add: star_seq_Cons)

lemma closing_empty_iff:
  "matches closing_slash u = [] \<longleftrightarrow> CHR ''/'' \<notin> set (takeWhile (\<lambda>c. c \<noteq> newline) u)"
  by (induction u) auto

lemma closing_groups: "(g, r) \<in> set (matches closing_slash u) \<Longrightarrow> g = []"
  by (induction u) (auto split: if_splits)

lemma escape_matches_Cons3:
  "matches escape_and_rest (a # b # c # u) =
     (if a = backslash \<and> b = backslash \<and> c = CHR ''/''
      then map (\<lambda>(g, r). ([over_escaped, take (length u - length r) u], r)) (matches closing_slash u)
      else [])"
  unfolding escape_and_rest_def
  by (auto simp: comp_def case_prod_unfold dest: closing_groups intro!: map_idI)

lemma escape_matches_short:
  "length s < 3 \<Longrightarrow> matches escape_and_rest s = []"
  unfolding escape_and_rest_def
  by (auto split: list.splits)

lemma escape_empty_iff:
  "matches escape_and_rest s = [] \<longleftrightarrow>
     \<not> (prefix over_escaped s \<and> CHR ''/'' \<in> set (takeWhile (\<lambda>c. c \<noteq> newline) (drop 3 s)))"
proof (cases "length s < 3")
  case True
  then have "\<not> prefix over_escaped s"
    by (auto simp: prefix_def)
  with True show ?thesis by (simp add: escape_matches_short)
next
  case False
  then obtain a b c u where s: "s = a # b # c # u"
    by (metis (no_types, opaque_lifting) length_Cons less_Suc_eq list.size(3) neq_Nil_conv not_less_eq numeral_3_eq_3 zero_less_Suc)
  show ?thesis unfolding s
    by (auto simp: escape_matches_Cons3 closing_empty_iff)
qed

lemma group1_tail_Nil [simp]: "group1_tail acc [] = []"
  by (simp add: group1_tail_def escape_matches_short)

lemma group1_tail_Cons:
  "group1_tail acc (x # xs) =
     (if x \<noteq> newline then group1_tail (acc @ [x]) xs else [])
     @ map (\<lambda>(g2, s2). (acc # g2, s2)) (matches escape_and_rest (x # xs))"
proof -
  have shift: "map (\<lambda>(g1, s1). map (\<lambda>(g2, s2). ((acc @ take (Suc (length xs) - length s1) (x # xs)) # g2, s2))
                                   (matches escape_and_rest s1))
                 (matches (Star not_newline) xs)
             = map (\<lambda>(g1, s1). map (\<lambda>(g2, s2). (((acc @ [x]) @ take (length xs - length s1) xs) # g2, s2))
                                   (matches escape_and_rest s1))
                 (matches (Star not_newline) xs)"
  proof (rule map_cong [OF refl])
    fix m assume m: "m \<in> set (matches (Star not_newline) xs)"
    obtain g1 s1 where [simp]: "m = (g1, s1)" by (cases m)
    from m have "suffix s1 xs" by (auto dest: star_suffix)
    then have "length s1 \<le> length xs" by (rule suffix_length_le)
    then show "(case m of (g1, s1) \<Rightarrow> map (\<lambda>(g2, s2). ((acc @ take (Suc (length xs) - length s1) (x # xs)) # g2, s2))
                                   (matches escape_and_rest s1))
             = (case m of (g1, s1) \<Rightarrow> map (\<lambda>(g2, s2). (((acc @ [x]) @ take (length xs - length s1) xs) # g2, s2))
                                   (matches escape_and_rest s1))"
      by (simp add: Suc_diff_le)
  qed
  show ?thesis
    unfolding group1_tail_def star_Cons
    by (simp add: shift del: append_assoc) 
qed

lemma group1_tail_empty_iff: "group1_tail acc t = [] \<longleftrightarrow> \<not> repairable t"
proof (induction t arbitrary: acc)
  case Nil
  then show ?case by simp
next
  case (Cons x xs)
  show ?case
    unfolding group1_tail_Cons
    using Cons.IH [of "acc @ [x]"]
    by (simp add: escape_empty_iff)
qed

lemma group1_tail_hd:
  assumes "newline \<notin> set a" and "\<not> repairable v"
    and "matches escape_and_rest (over_escaped @ v) = (g, r) # ms"
  shows "\<exists>ms'. group1_tail acc (a @ over_escaped @ v) = ((acc @ a) # g, r) # ms'"
  using assms(1)
proof (induction a arbitrary: acc)
  case Nil
  have "\<not> repairable (backslash # CHR ''/'' # v)"
    using assms(2) by simp
  then have "group1_tail (acc @ [backslash]) (backslash # CHR ''/'' # v) = []"
    using group1_tail_empty_iff by blast
  then show ?case
    using assms(3) by (simp add: group1_tail_Cons)
next
  case (Cons x a)
  then obtain ms' where "group1_tail (acc @ [x]) (a @ over_escaped @ v) = (((acc @ [x]) @ a) # g, r) # ms'"
    by (metis list.set_intros(2))
  moreover have "x \<noteq> newline" using Cons.prems by auto
  ultimately show ?case
    by (simp add: group1_tail_Cons)
qed

lemma pattern_as_tail:
  "matches over_escaped_pattern s =
     (if prefix ''= /'' s then group1_tail ''= /'' (drop 3 s) else [])"
proof (cases "prefix ''= /'' s")
  case False
  then show ?thesis
    unfolding over_escaped_pattern_def
    by (auto split: list.splits)
next
  case True
  then obtain t where s: "s = CHR ''='' # CHR '' '' # CHR ''/'' # t"
    by (auto simp: prefix_def)
  have len: "\<And>g1 s1. (g1, s1) \<in> set (matches (Star not_newline) t) \<Longrightarrow> length s1 \<le> length t \<and> g1 = []"
    by (auto dest: star_suffix star_groups suffix_length_le)
  show ?thesis
    using True
    unfolding over_escaped_pattern_def escape_and_rest_def [symmetric] closing_slash_def [symmetric] group1_tail_def
    apply (simp add: s)
    apply (rule arg_cong [where f = concat])
    apply (rule map_cong [OF refl])
    apply (auto dest!: len simp: Suc_diff_le)
    done
qed

lemma takeWhile_line:
  "newline \<notin> set l \<Longrightarrow> line_end tail \<Longrightarrow> takeWhile (\<lambda>c. c \<noteq> newline) (l @ tail) = l"
  by (induction l) (auto simp: takeWhile_eq_Nil_iff)

lemma prefix_takeWhile:
  "prefix p t \<Longrightarrow> \<forall>c \<in> set p. P c \<Longrightarrow> prefix p (takeWhile P t)"
proof (induction p arbitrary: t)
  case Nil
  then show ?case by simp
next
  case (Cons a p)
  then obtain t' where "t = a # t'" "prefix p t'"
    by (cases t) auto
  with Cons show ?case by simp
qed

lemma repairable_iff:
  "repairable t \<longleftrightarrow>
     (\<exists>a b rest. t = a @ over_escaped @ b @ CHR ''/'' # rest
        \<and> newline \<notin> set a \<and> newline \<notin> set b)"
proof
  assume "repairable t"
  then show "\<exists>a b rest. t = a @ over_escaped @ b @ CHR ''/'' # rest
        \<and> newline \<notin> set a \<and> newline \<notin> set b"
  proof (induction t)
    case Nil
    then show ?case by simp
  next
    case (Cons x xs)
    from Cons.prems consider
        (later) "x \<noteq> newline" "repairable xs"
      | (here) "prefix over_escaped (x # xs)"
          "CHR ''/'' \<in> set (takeWhile (\<lambda>c. c \<noteq> newline) (drop 3 (x # xs)))"
      by auto
    then show ?case
    proof cases
      case later
      then obtain a b rest where "xs = a @ over_escaped @ b @ CHR ''/'' # rest"
        "newline \<notin> set a" "newline \<notin> set b"
        using Cons.IH by blast
      with later(1) have "x # xs = (x # a) @ over_escaped @ b @ CHR ''/'' # rest
        \<and> newline \<notin> set (x # a) \<and> newline \<notin> set b"
        by simp
      then show ?thesis by blast
    next
      case here
      from here(1) obtain u where u: "x # xs = over_escaped @ u"
        by (auto simp: prefix_def)
      then have d: "drop 3 (x # xs) = u" by simp
      from here(2) obtain b c where bc: "takeWhile (\<lambda>c. c \<noteq> newline) u = b @ CHR ''/'' # c"
        unfolding d by (auto dest: split_list)
      have "newline \<notin> set (takeWhile (\<lambda>c. c \<noteq> newline) u)"
        by (auto dest: set_takeWhileD)
      then have nb: "newline \<notin> set b" unfolding bc by simp
      have "u = (b @ CHR ''/'' # c) @ dropWhile (\<lambda>c. c \<noteq> newline) u"
        by (metis bc takeWhile_dropWhile_id)
      then have "x # xs = [] @ over_escaped @ b @ CHR ''/'' # (c @ dropWhile (\<lambda>c. c \<noteq> newline) u)"
        using u by simp
      with nb show ?thesis
        by (metis empty_iff empty_set)
    qed
  qed
next
  assume "\<exists>a b rest. t = a @ over_escaped @ b @ CHR ''/'' # rest
        \<and> newline \<notin> set a \<and> newline \<notin> set b"
  then obtain a b rest where t: "t = a @ over_escaped @ b @ CHR ''/'' # rest"
    and a: "newline \<notin> set a" and b: "newline \<notin> set b"
    by blast
  have "CHR ''/'' \<in> set (takeWhile (\<lambda>c. c \<noteq> newline) (b @ CHR ''/'' # rest))"
    using b by (induction b) auto
  then have here: "repairable (over_escaped @ b @ CHR ''/'' # rest)"
    by simp
  show "repairable t"
    unfolding t using a here by (induction a) auto
qed

lemma repairable_line:
  assumes "newline \<notin> set l" and "line_end tail"
  shows "repairable (l @ tail) = repairable l"
proof
  assume "repairable l"
  then show "repairable (l @ tail)"
    unfolding repairable_iff by (metis append.assoc append_Cons)
next
  assume "repairable (l @ tail)"
  then obtain a b rest where t: "l @ tail = a @ over_escaped @ b @ CHR ''/'' # rest"
    and a: "newline \<notin> set a" and b: "newline \<notin> set b"
    unfolding repairable_iff by blast
  let ?p = "a @ over_escaped @ b @ [CHR ''/'']"
  have "prefix ?p (l @ tail)"
    unfolding t by (simp add: prefix_def)
  moreover have "\<forall>c \<in> set ?p. c \<noteq> newline"
    using a b by auto
  ultimately have "prefix ?p (takeWhile (\<lambda>c. c \<noteq> newline) (l @ tail))"
    by (rule prefix_takeWhile)
  then have "prefix ?p l"
    using assms by (simp add: takeWhile_line)
  then obtain r where "l = ?p @ r"
    by (auto simp: prefix_def)
  then have "l = a @ over_escaped @ b @ CHR ''/'' # r" by simp
  with a b show "repairable l"
    unfolding repairable_iff by blast
qed

lemma closing_hd:
  assumes "newline \<notin> set w1" and "newline \<notin> set w2" and "CHR ''/'' \<notin> set w2"
    and "line_end tail"
  shows "\<exists>ms. matches closing_slash (w1 @ CHR ''/'' # w2 @ tail) = ([], w2 @ tail) # ms"
  using assms(1)
proof (induction w1)
  case Nil
  have "matches closing_slash (w2 @ tail) = []"
    using assms(2-4) by (simp add: closing_empty_iff takeWhile_line)
  then show ?case by simp
next
  case (Cons x w1)
  then obtain ms where "matches closing_slash (w1 @ CHR ''/'' # w2 @ tail) = ([], w2 @ tail) # ms"
    by auto
  moreover have "x \<noteq> newline" using Cons.prems by auto
  ultimately show ?case by simp
qed

lemma escape_hd:
  assumes "newline \<notin> set w1" and "newline \<notin> set w2" and "CHR ''/'' \<notin> set w2"
    and "line_end tail"
  shows "\<exists>ms. matches escape_and_rest (over_escaped @ w1 @ CHR ''/'' # w2 @ tail)
           = ([over_escaped, w1 @ ''/''], w2 @ tail) # ms"
proof -
  obtain ms where "matches closing_slash (w1 @ CHR ''/'' # w2 @ tail) = ([], w2 @ tail) # ms"
    using closing_hd [OF assms] by blast
  then show ?thesis
    by (simp add: escape_matches_Cons3)
qed

lemma pattern_hd:
  assumes "newline \<notin> set a" and "newline \<notin> set w1" and "newline \<notin> set w2"
    and "CHR ''/'' \<notin> set w2" and "line_end tail"
    and "\<not> repairable (w1 @ CHR ''/'' # w2)"
  shows "\<exists>ms. matches over_escaped_pattern (''= /'' @ a @ over_escaped @ w1 @ CHR ''/'' # w2 @ tail)
           = ([''= /'' @ a, over_escaped, w1 @ ''/''], w2 @ tail) # ms"
proof -
  let ?v = "w1 @ CHR ''/'' # w2 @ tail"
  obtain ms where e: "matches escape_and_rest (over_escaped @ ?v)
           = ([over_escaped, w1 @ ''/''], w2 @ tail) # ms"
    using escape_hd [OF assms(2-5)] by blast
  have "repairable ((w1 @ CHR ''/'' # w2) @ tail) = repairable (w1 @ CHR ''/'' # w2)"
    using assms(2,3,5) by (intro repairable_line) auto
  then have nr: "\<not> repairable ?v"
    using assms(6) by simp
  obtain ms' where "group1_tail ''= /'' (a @ over_escaped @ ?v)
      = ((''= /'' @ a) # [over_escaped, w1 @ ''/''], w2 @ tail) # ms'"
    using group1_tail_hd [OF assms(1) nr e] by blast
  then show ?thesis
    by (simp add: pattern_as_tail)
qed

lemma rule2_hit:
  assumes "matches over_escaped_pattern s = ([g1, g2, g3], rest) # ms" and "length rest < length s"
  shows "over_escaped_rule s = g1 @ [backslash, CHR ''/''] @ g3 @ over_escaped_rule rest"
  unfolding over_escaped_rule_def re_sub_hit [OF assms]
  by (simp add: expand_def over_escaped_template_def)

lemma rule2_miss:
  "\<not> (prefix ''= /'' (c # cs) \<and> repairable (drop 3 (c # cs)))
     \<Longrightarrow> over_escaped_rule (c # cs) = c # over_escaped_rule cs"
  unfolding over_escaped_rule_def
  by (rule re_sub_miss) (auto simp: pattern_as_tail group1_tail_empty_iff)

lemma rule2_Nil [simp]: "over_escaped_rule [] = []"
  unfolding over_escaped_rule_def
  by (rule re_sub_Nil) (simp add: pattern_as_tail)

lemma rule2_no_slash:
  assumes "CHR ''/'' \<notin> set x" and "line_end tail"
  shows "over_escaped_rule (x @ tail) = x @ over_escaped_rule tail"
  using assms(1)
proof (induction x)
  case Nil
  then show ?case by simp
next
  case (Cons c x)
  have "\<not> prefix ''= /'' ((c # x) @ tail)"
  proof
    assume "prefix ''= /'' ((c # x) @ tail)"
    then obtain r where r: "(c # x) @ tail = ''= /'' @ r"
      by (auto simp: prefix_def)
    then have "((c # x) @ tail) ! 2 = CHR ''/''" by simp
    show False
    proof (cases "2 < length (c # x)")
      case True
      then have "(c # x) ! 2 = CHR ''/''"
        using \<open>((c # x) @ tail) ! 2 = CHR ''/''\<close> by (simp add: nth_append)
      then show False using Cons.prems True by (metis nth_mem)
    next
      case False
      then consider "x = []" | "\<exists>d. x = [d]"
        by (cases x rule: list.exhaust; cases "tl x"; auto)
      then show False
      proof cases
        case 1
        with r assms(2) show False by (cases tail) auto
      next
        case 2
        then obtain d where "x = [d]" by blast
        with r assms(2) show False by (cases tail) auto
      qed
    qed
  qed
  then have "\<not> prefix ''= /'' (c # x @ tail)"
    by (metis append_Cons)
  then have "\<not> (prefix ''= /'' (c # x @ tail) \<and> repairable (drop 3 (c # x @ tail)))"
    by blast
  then have "over_escaped_rule (c # x @ tail) = c # over_escaped_rule (x @ tail)"
    by (rule rule2_miss)
  then show ?case using Cons by simp
qed

section \<open>What the second rule does to a line\<close>

lemma prefix_long: "length p \<le> length u \<Longrightarrow> prefix p (u @ r) = prefix p u"
  by (metis prefix_append prefix_length_le prefix_order.dual_order.antisym prefix_order.order_refl
      append_Nil2 prefix_def append_eq_append_conv_if take_all)

lemma rule2_repairs_rightmost:
  assumes q: "newline \<notin> set q" and has: "\<exists>p a. q = p @ ''= /'' @ a"
    and w: "newline \<notin> set w" "CHR ''/'' \<in> set w" "\<not> repairable w"
    and tail: "line_end tail"
  shows "over_escaped_rule (q @ over_escaped @ w @ tail)
           = q @ [backslash, CHR ''/''] @ w @ over_escaped_rule tail"
proof -
  obtain w1 w2 where w12: "w = w1 @ CHR ''/'' # w2" and w2: "CHR ''/'' \<notin> set w2"
    using w(2) by (auto dest: split_list_last)
  have nl1: "newline \<notin> set w1" and nl2: "newline \<notin> set w2"
    using w(1) unfolding w12 by auto
  have nr: "\<not> repairable (w1 @ CHR ''/'' # w2)"
    using w(3) unfolding w12 .
  show ?thesis
    using q has
  proof (induction q)
    case Nil
    then show ?case by simp
  next
    case (Cons c q)
    show ?case
    proof (cases "prefix ''= /'' (c # q)")
      case True
      then obtain a where a: "c # q = ''= /'' @ a"
        by (auto simp: prefix_def)
      have nla: "newline \<notin> set a"
        using Cons.prems(1) unfolding a by simp
      let ?s = "''= /'' @ a @ over_escaped @ w1 @ CHR ''/'' # w2 @ tail"
      obtain ms where m: "matches over_escaped_pattern ?s
           = ([''= /'' @ a, over_escaped, w1 @ ''/''], w2 @ tail) # ms"
        using pattern_hd [OF nla nl1 nl2 w2 tail nr] by blast
      have len: "length (w2 @ tail) < length ?s" by simp
      have "over_escaped_rule ?s
              = (''= /'' @ a) @ [backslash, CHR ''/''] @ (w1 @ ''/'') @ over_escaped_rule (w2 @ tail)"
        by (rule rule2_hit [OF m len])
      also have "over_escaped_rule (w2 @ tail) = w2 @ over_escaped_rule tail"
        by (rule rule2_no_slash [OF w2 tail])
      finally show ?thesis
        unfolding a w12 by simp
    next
      case False
      from Cons.prems(2) obtain p a where pa: "c # q = p @ ''= /'' @ a" by blast
      with False have "p \<noteq> []" by (auto simp: prefix_def)
      then obtain p' where p': "p = c # p'" and q': "q = p' @ ''= /'' @ a"
        using pa by (cases p) auto
      have "length ''= /'' \<le> length (c # q)"
        unfolding q' by simp
      then have "prefix ''= /'' ((c # q) @ over_escaped @ w @ tail) = prefix ''= /'' (c # q)"
        by (rule prefix_long)
      with False have "\<not> prefix ''= /'' (c # q @ over_escaped @ w @ tail)"
        by (metis append_Cons)
      then have "\<not> (prefix ''= /'' (c # q @ over_escaped @ w @ tail)
                  \<and> repairable (drop 3 (c # q @ over_escaped @ w @ tail)))"
        by blast
      then have "over_escaped_rule (c # q @ over_escaped @ w @ tail)
                   = c # over_escaped_rule (q @ over_escaped @ w @ tail)"
        by (rule rule2_miss)
      moreover have "over_escaped_rule (q @ over_escaped @ w @ tail)
                   = q @ [backslash, CHR ''/''] @ w @ over_escaped_rule tail"
        using Cons.IH Cons.prems(1) q' by auto
      ultimately show ?thesis by simp
    qed
  qed
qed

lemma rule2_clean: "\<not> has_over_escaped s \<Longrightarrow> over_escaped_rule s = s"
proof (induction s)
  case Nil
  then show ?case by simp
next
  case (Cons c cs)
  then have no: "\<not> (prefix ''= /'' (c # cs) \<and> repairable (drop 3 (c # cs)))"
    and rest: "\<not> has_over_escaped cs"
    by auto
  have "over_escaped_rule (c # cs) = c # over_escaped_rule cs"
    using no by (rule rule2_miss)
  then show ?case
    using Cons.IH rest by simp
qed

lemma rule1_clean: "\<not> has_dotted_special s \<Longrightarrow> dotted_special_rule s = s"
proof (induction s)
  case Nil
  then show ?case by simp
next
  case (Cons c cs)
  then have no: "\<not> (prefix ''.@@'' (c # cs)
        \<and> (case drop 3 (c # cs) of [] \<Rightarrow> False | e # _ \<Rightarrow> in_class word_char e))"
    and rest: "\<not> has_dotted_special cs"
    by auto
  have "\<not> (\<exists>e r. c # cs = ''.@@'' @ e # r \<and> is_word e)"
  proof
    assume "\<exists>e r. c # cs = ''.@@'' @ e # r \<and> is_word e"
    then obtain e r where "c # cs = ''.@@'' @ e # r" "is_word e" by blast
    then have "prefix ''.@@'' (c # cs) \<and> (case drop 3 (c # cs) of [] \<Rightarrow> False | e # _ \<Rightarrow> in_class word_char e)"
      by (simp add: prefix_def)
    with no show False by blast
  qed
  then have "dotted_special_rule (c # cs) = c # dotted_special_rule cs"
    by (rule dotted_rule_miss)
  then show ?case using Cons.IH rest by simp
qed

section \<open>The two defect patterns, declaratively\<close>

lemma has_dotted_special_iff:
  "has_dotted_special s \<longleftrightarrow> (\<exists>x c y. s = x @ ''.@@'' @ c # y \<and> is_word c)"
proof (induction s)
  case Nil
  then show ?case by simp
next
  case (Cons d ds)
  have here: "(prefix ''.@@'' (d # ds) \<and> (case drop 3 (d # ds) of [] \<Rightarrow> False | e # _ \<Rightarrow> is_word e))
      \<longleftrightarrow> (\<exists>c y. d # ds = ''.@@'' @ c # y \<and> is_word c)"
    by (auto simp: prefix_def split: list.splits)
  have "(\<exists>x c y. d # ds = x @ ''.@@'' @ c # y \<and> is_word c)
      \<longleftrightarrow> (\<exists>c y. d # ds = ''.@@'' @ c # y \<and> is_word c) \<or> (\<exists>x c y. ds = x @ ''.@@'' @ c # y \<and> is_word c)"
    (is "?L \<longleftrightarrow> ?A \<or> ?B")
  proof
    assume ?L
    then obtain x c y where e: "d # ds = x @ ''.@@'' @ c # y" and c: "is_word c" by blast
    show "?A \<or> ?B"
    proof (cases x)
      case Nil
      then show ?thesis using e c by auto
    next
      case (Cons x1 xs)
      then have "ds = xs @ ''.@@'' @ c # y" using e by simp
      then show ?thesis using c by blast
    qed
  next
    assume "?A \<or> ?B"
    then show ?L
    proof
      assume ?A
      then obtain c y where "d # ds = [] @ ''.@@'' @ c # y" "is_word c" by auto
      then show ?L by blast
    next
      assume ?B
      then obtain x c y where "ds = x @ ''.@@'' @ c # y" "is_word c" by blast
      then have "d # ds = (d # x) @ ''.@@'' @ c # y" by simp
      then show ?L using \<open>is_word c\<close> by blast
    qed
  qed
  then show ?case using Cons.IH here by simp
qed

lemma has_over_escaped_iff:
  "has_over_escaped s \<longleftrightarrow>
     (\<exists>x a b y. s = x @ ''= /'' @ a @ over_escaped @ b @ CHR ''/'' # y
        \<and> newline \<notin> set a \<and> newline \<notin> set b)"
proof (induction s)
  case Nil
  then show ?case by simp
next
  case (Cons d ds)
  let ?P = "\<lambda>t a b y. t = ''= /'' @ a @ over_escaped @ b @ CHR ''/'' # y
        \<and> newline \<notin> set a \<and> newline \<notin> set b"
  have here: "(prefix ''= /'' (d # ds) \<and> repairable (drop 3 (d # ds)))
      \<longleftrightarrow> (\<exists>a b y. ?P (d # ds) a b y)"
  proof
    assume l: "prefix ''= /'' (d # ds) \<and> repairable (drop 3 (d # ds))"
    then obtain t where t: "d # ds = ''= /'' @ t" by (auto simp: prefix_def)
    then have "repairable t" using l by simp
    then obtain a b rest where "t = a @ over_escaped @ b @ CHR ''/'' # rest"
      "newline \<notin> set a" "newline \<notin> set b"
      unfolding repairable_iff by blast
    then show "\<exists>a b y. ?P (d # ds) a b y" using t by blast
  next
    assume "\<exists>a b y. ?P (d # ds) a b y"
    then obtain a b y where p: "?P (d # ds) a b y" by blast
    then have "repairable (a @ over_escaped @ b @ CHR ''/'' # y)"
      unfolding repairable_iff by blast
    then show "prefix ''= /'' (d # ds) \<and> repairable (drop 3 (d # ds))"
      using p by simp
  qed
  have "(\<exists>x a b y. d # ds = x @ ''= /'' @ a @ over_escaped @ b @ CHR ''/'' # y
        \<and> newline \<notin> set a \<and> newline \<notin> set b)
      \<longleftrightarrow> (\<exists>a b y. ?P (d # ds) a b y) \<or> (\<exists>x a b y. ds = x @ ''= /'' @ a @ over_escaped @ b @ CHR ''/'' # y
        \<and> newline \<notin> set a \<and> newline \<notin> set b)"
    (is "?L \<longleftrightarrow> ?A \<or> ?B")
  proof
    assume ?L
    then obtain x a b y where e: "d # ds = x @ ''= /'' @ a @ over_escaped @ b @ CHR ''/'' # y"
      and n: "newline \<notin> set a" "newline \<notin> set b" by blast
    show "?A \<or> ?B"
    proof (cases x)
      case Nil
      then have "?P (d # ds) a b y" using e n by simp
      then show ?thesis by blast
    next
      case (Cons x1 xs)
      then have "ds = xs @ ''= /'' @ a @ over_escaped @ b @ CHR ''/'' # y" using e by simp
      then show ?thesis using n by blast
    qed
  next
    assume "?A \<or> ?B"
    then show ?L
    proof
      assume ?A
      then obtain a b y where "d # ds = [] @ ''= /'' @ a @ over_escaped @ b @ CHR ''/'' # y"
        "newline \<notin> set a" "newline \<notin> set b" by auto
      then show ?L by blast
    next
      assume ?B
      then obtain x a b y where "ds = x @ ''= /'' @ a @ over_escaped @ b @ CHR ''/'' # y"
        "newline \<notin> set a" "newline \<notin> set b" by blast
      then have "d # ds = (d # x) @ ''= /'' @ a @ over_escaped @ b @ CHR ''/'' # y
         \<and> newline \<notin> set a \<and> newline \<notin> set b" by simp
      then show ?L by blast
    qed
  qed
  then show ?case using Cons.IH here by simp
qed

section \<open>The first rule as a scan\<close>

declare dotted_rewrite.simps(2) [simp del]

lemma dotted_rewrite_hit:
  assumes "is_word c"
  shows "dotted_rewrite (''.@@'' @ c # r)
           = ''[`@@'' @ c # takeWhile is_word r @ ''`]'' @ dotted_rewrite (dropWhile is_word r)"
  using assms by (simp add: dotted_rewrite.simps(2))

lemma hit_iff:
  "(prefix ''.@@'' (x # s) \<and> takeWhile is_word (drop 3 (x # s)) \<noteq> [])
     \<longleftrightarrow> (\<exists>c r. x # s = ''.@@'' @ c # r \<and> is_word c)"
proof
  assume l: "prefix ''.@@'' (x # s) \<and> takeWhile is_word (drop 3 (x # s)) \<noteq> []"
  then obtain t where t: "x # s = ''.@@'' @ t" by (auto simp: prefix_def)
  with l have "takeWhile is_word t \<noteq> []" by simp
  then obtain c r where "t = c # r" "is_word c"
    by (cases t) (auto split: if_splits)
  with t show "\<exists>c r. x # s = ''.@@'' @ c # r \<and> is_word c" by blast
next
  assume "\<exists>c r. x # s = ''.@@'' @ c # r \<and> is_word c"
  then obtain c r where e: "x # s = ''.@@'' @ c # r" and c: "is_word c" by blast
  show "prefix ''.@@'' (x # s) \<and> takeWhile is_word (drop 3 (x # s)) \<noteq> []"
    unfolding e using c by simp
qed

lemma dotted_rewrite_miss:
  assumes "\<not> (\<exists>c r. x # s = ''.@@'' @ c # r \<and> is_word c)"
  shows "dotted_rewrite (x # s) = x # dotted_rewrite s"
proof -
  have "\<not> (prefix ''.@@'' (x # s) \<and> takeWhile is_word (drop 3 (x # s)) \<noteq> [])"
    using assms unfolding hit_iff .
  then show ?thesis
    by (subst dotted_rewrite.simps(2)) (simp only: if_False)
qed

text \<open>An induction rule that follows the scan of rule 1.\<close>

lemma scan_induct [case_names Nil hit miss]:
  assumes "P []"
    and "\<And>c r. is_word c \<Longrightarrow> P (dropWhile is_word r) \<Longrightarrow> P (''.@@'' @ c # r)"
    and "\<And>x s. \<not> (\<exists>c r. x # s = ''.@@'' @ c # r \<and> is_word c) \<Longrightarrow> P s \<Longrightarrow> P (x # s)"
  shows "P s"
proof (induction s rule: length_induct)
  case (1 s)
  show ?case
  proof (cases s)
    case Nil
    then show ?thesis using assms(1) by simp
  next
    case (Cons x t)
    show ?thesis
    proof (cases "\<exists>c r. x # t = ''.@@'' @ c # r \<and> is_word c")
      case True
      then obtain c r where e: "x # t = ''.@@'' @ c # r" and c: "is_word c" by blast
      have "length (dropWhile is_word r) \<le> length r"
        by (rule length_dropWhile_le)
      then have "length (dropWhile is_word r) < length s"
        unfolding Cons e by simp
      then have "P (dropWhile is_word r)" using 1 by blast
      then show ?thesis unfolding Cons e using c by (rule assms(2) [rotated])
    next
      case False
      have "P t" using 1 Cons by simp
      then show ?thesis unfolding Cons using False by (rule assms(3) [rotated])
    qed
  qed
qed

lemma dotted_rule_is_rewrite: "dotted_special_rule s = dotted_rewrite s"
proof (induction s rule: scan_induct)
  case Nil
  then show ?case by simp
next
  case (hit c r)
  then show ?case by (simp only: dotted_rule_hit dotted_rewrite_hit)
next
  case (miss x s)
  have "dotted_special_rule (x # s) = x # dotted_special_rule s"
    using miss(1) by (rule dotted_rule_miss)
  moreover have "dotted_rewrite (x # s) = x # dotted_rewrite s"
    using miss(1) by (rule dotted_rewrite_miss)
  ultimately show ?case using miss(2) by simp
qed

lemma takeWhile_stop: "\<not> P c \<Longrightarrow> takeWhile P (r @ c # y) = takeWhile P r"
  by (induction r) simp_all

lemma dropWhile_stop: "\<not> P c \<Longrightarrow> dropWhile P (r @ c # y) = dropWhile P r @ c # y"
  by (induction r) simp_all

lemma separators [simp]:
  "separator backslash" "separator newline" "separator (CHR ''/'')" "separator (CHR ''='')"
  "separator (CHR '' '')"
  by (simp_all add: separator_def word_char_def in_ranges_def)

lemma dotted_rule_hit_Cons:
  assumes "is_word c"
  shows "dotted_special_rule (CHR ''.'' # CHR ''@'' # CHR ''@'' # c # r)
           = CHR ''['' # CHR 0x60 # CHR ''@'' # CHR ''@'' # c # takeWhile is_word r
               @ CHR 0x60 # CHR '']'' # dotted_special_rule (dropWhile is_word r)"
  using dotted_rule_hit [OF assms, of r] by simp

lemma rule1_boundary:
  assumes "\<not> is_word c" and "c \<noteq> CHR ''@''"
  shows "dotted_special_rule (x @ c # y) = dotted_special_rule x @ dotted_special_rule (c # y)"
proof (induction x rule: scan_induct)
  case Nil
  then show ?case by simp
next
  case (hit d r)
  have nw: "\<not> is_word c" by fact
  have "dotted_special_rule ((''.@@'' @ d # r) @ c # y)
          = dotted_special_rule (''.@@'' @ d # (r @ c # y))"
    by simp
  also have "\<dots> = ''[`@@'' @ d # takeWhile is_word (r @ c # y) @ ''`]''
                   @ dotted_special_rule (dropWhile is_word (r @ c # y))"
    using hit(1) by (rule dotted_rule_hit)
  also have "\<dots> = ''[`@@'' @ d # takeWhile is_word r @ ''`]''
                   @ dotted_special_rule (dropWhile is_word r) @ dotted_special_rule (c # y)"
    using hit(2) nw by (simp add: takeWhile_stop dropWhile_stop)
  also have "\<dots> = dotted_special_rule (''.@@'' @ d # r) @ dotted_special_rule (c # y)"
    using hit(1) by (simp add: dotted_rule_hit_Cons)
  finally show ?case .
next
  case (miss x s)
  have "\<not> (\<exists>c' r. x # (s @ c # y) = ''.@@'' @ c' # r \<and> is_word c')"
  proof
    assume "\<exists>c' r. x # (s @ c # y) = ''.@@'' @ c' # r \<and> is_word c'"
    then obtain c' r where e: "x # (s @ c # y) = ''.@@'' @ c' # r" and w: "is_word c'" by blast
    show False
    proof (cases s)
      case Nil
      then show ?thesis using e assms by simp
    next
      case s1: (Cons a s')
      show ?thesis
      proof (cases s')
        case Nil
        then show ?thesis using e s1 assms by simp
      next
        case s2: (Cons b s'')
        show ?thesis
        proof (cases s'')
          case Nil
          then show ?thesis using e s1 s2 w assms by simp
        next
          case (Cons d s''')
          then have "x # s = ''.@@'' @ c' # s'''" using e s1 s2 by simp
          then show ?thesis using miss(1) w by blast
        qed
      qed
    qed
  qed
  then have "dotted_special_rule (x # (s @ c # y)) = x # dotted_special_rule (s @ c # y)"
    by (rule dotted_rule_miss)
  moreover have "dotted_special_rule (x # s) = x # dotted_special_rule s"
    using miss(1) by (rule dotted_rule_miss)
  ultimately show ?case using miss(2) by simp
qed

lemma rule1_separator_Cons:
  assumes "separator c"
  shows "dotted_special_rule (c # y) = c # dotted_special_rule y"
proof -
  have "\<not> (\<exists>c' r. c # y = ''.@@'' @ c' # r \<and> is_word c')"
    using assms by (auto simp: separator_def)
  then show ?thesis by (rule dotted_rule_miss)
qed

lemma rule1_separator:
  assumes "separator c"
  shows "dotted_special_rule (x @ c # y) = dotted_special_rule x @ c # dotted_special_rule y"
proof -
  have "dotted_special_rule (x @ c # y) = dotted_special_rule x @ dotted_special_rule (c # y)"
    using assms by (intro rule1_boundary) (simp_all add: separator_def)
  then show ?thesis using assms by (simp add: rule1_separator_Cons)
qed

lemma rule1_head:
  assumes "dotted_special_rule s = x # t" and "x \<noteq> CHR ''[''"
  shows "\<exists>s'. s = x # s' \<and> dotted_special_rule s' = t"
proof (cases s)
  case Nil
  then show ?thesis using assms by simp
next
  case (Cons a s')
  show ?thesis
  proof (cases "\<exists>c r. a # s' = ''.@@'' @ c # r \<and> is_word c")
    case True
    then obtain c r where e: "s = ''.@@'' @ c # r" and c: "is_word c" using Cons by blast
    have "dotted_special_rule s
            = ''[`@@'' @ c # takeWhile is_word r @ ''`]'' @ dotted_special_rule (dropWhile is_word r)"
      unfolding e using c by (rule dotted_rule_hit)
    then show ?thesis using assms by simp
  next
    case False
    then have "dotted_special_rule (a # s') = a # dotted_special_rule s'"
      by (rule dotted_rule_miss)
    then show ?thesis using assms Cons by simp
  qed
qed

lemma has_dotted_special_skip:
  "CHR ''.'' \<notin> set u \<Longrightarrow> has_dotted_special (u @ v) = has_dotted_special v"
  by (induction u) auto

lemma rule1_leaves_none: "\<not> has_dotted_special (dotted_special_rule s)"
proof (induction s rule: scan_induct)
  case Nil
  then show ?case by simp
next
  case (hit c r)
  have w: "is_word c" by fact
  have nodot: "CHR ''.'' \<notin> set (''[`@@'' @ c # takeWhile is_word r @ ''`]'')"
  proof -
    have "\<not> is_word (CHR ''.'')" by (simp add: word_char_def in_ranges_def)
    then have "CHR ''.'' \<noteq> c" "CHR ''.'' \<notin> set (takeWhile is_word r)"
      using w by (auto dest: set_takeWhileD)
    then show ?thesis by simp
  qed
  have skip: "has_dotted_special ((''[`@@'' @ c # takeWhile is_word r @ ''`]'')
           @ dotted_special_rule (dropWhile is_word r))
        = has_dotted_special (dotted_special_rule (dropWhile is_word r))"
    using nodot by (rule has_dotted_special_skip)
  have eq: "dotted_special_rule (''.@@'' @ c # r)
        = (''[`@@'' @ c # takeWhile is_word r @ ''`]'') @ dotted_special_rule (dropWhile is_word r)"
    using dotted_rule_hit [OF w, of r] by simp
  show ?case unfolding eq skip by (rule hit(2))
next
  case (miss x s)
  have step: "dotted_special_rule (x # s) = x # dotted_special_rule s"
    using miss(1) by (rule dotted_rule_miss)
  have "\<not> (prefix ''.@@'' (x # dotted_special_rule s)
        \<and> (case drop 3 (x # dotted_special_rule s) of [] \<Rightarrow> False | e # _ \<Rightarrow> is_word e))"
  proof
    assume a: "prefix ''.@@'' (x # dotted_special_rule s)
        \<and> (case drop 3 (x # dotted_special_rule s) of [] \<Rightarrow> False | e # _ \<Rightarrow> is_word e)"
    then obtain t where t: "x # dotted_special_rule s = ''.@@'' @ t"
      by (auto simp: prefix_def)
    with a obtain e t' where t': "t = e # t'" and e: "is_word e"
      by (cases t) auto
    have x: "x = CHR ''.''" and r1: "dotted_special_rule s = CHR ''@'' # CHR ''@'' # e # t'"
      using t t' by simp_all
    obtain s1 where s1: "s = CHR ''@'' # s1" "dotted_special_rule s1 = CHR ''@'' # e # t'"
      using rule1_head [OF r1] by auto
    obtain s2 where s2: "s1 = CHR ''@'' # s2" "dotted_special_rule s2 = e # t'"
      using rule1_head [OF s1(2)] by auto
    have "e \<noteq> CHR ''[''"
      using e by (auto simp: word_char_def in_ranges_def)
    then obtain s3 where s3: "s2 = e # s3"
      using rule1_head [OF s2(2)] by auto
    have "x # s = ''.@@'' @ e # s3"
      using x s1(1) s2(1) s3 by simp
    then show False using miss(1) e by blast
  qed
  then show ?case using miss(2) unfolding step by simp
qed

lemma rule1_idempotent: "dotted_special_rule (dotted_special_rule s) = dotted_special_rule s"
  using rule1_leaves_none by (rule rule1_clean)

lemma rule1_count:
  assumes "c \<notin> set ''.[`]''"
  shows "count_list (dotted_special_rule s) c = count_list s c"
proof (induction s rule: scan_induct)
  case Nil
  then show ?case by simp
next
  case (hit d r)
  have "count_list r c = count_list (takeWhile is_word r @ dropWhile is_word r) c"
    by simp
  then have "count_list r c = count_list (takeWhile is_word r) c + count_list (dropWhile is_word r) c"
    by (simp only: count_list_append)
  then show ?case using hit assms by (auto simp: dotted_rule_hit_Cons)
next
  case (miss x s)
  then show ?case by (simp add: dotted_rule_miss)
qed

section \<open>Counting over-escaped sequences\<close>

lemma count_skip: "backslash \<notin> set u \<Longrightarrow> count_over_escaped (u @ v) = count_over_escaped v"
  by (induction u) auto

lemma count_occurrence:
  "count_over_escaped (x @ over_escaped @ y) = count_over_escaped x + 1 + count_over_escaped y"
proof (induction x)
  case Nil
  then show ?case by simp
next
  case (Cons c x)
  have "prefix over_escaped (c # x @ over_escaped @ y) = prefix over_escaped (c # x)"
  proof (cases x)
    case Nil
    then show ?thesis by auto
  next
    case x1: (Cons d x')
    then show ?thesis by (cases x') auto
  qed
  then show ?case using Cons by simp
qed

lemma count_corrected:
  assumes "x = [] \<or> last x \<noteq> backslash"
  shows "count_over_escaped (x @ backslash # CHR ''/'' # y)
           = count_over_escaped x + count_over_escaped y"
  using assms
proof (induction x)
  case Nil
  then show ?case by simp
next
  case (Cons c x)
  have "prefix over_escaped (c # x @ backslash # CHR ''/'' # y) = prefix over_escaped (c # x)"
  proof (cases x)
    case Nil
    then show ?thesis using Cons.prems by auto
  next
    case x1: (Cons d x')
    then show ?thesis by (cases x') auto
  qed
  moreover have "x = [] \<or> last x \<noteq> backslash"
    using Cons.prems by (auto split: if_splits)
  ultimately show ?case using Cons.IH by simp
qed

lemma count_zero_not_repairable:
  assumes "count_over_escaped s = 0"
  shows "\<not> repairable s"
proof
  assume "repairable s"
  then obtain a b rest where "s = a @ over_escaped @ b @ CHR ''/'' # rest"
    unfolding repairable_iff by blast
  then have "count_over_escaped s = count_over_escaped a + 1 + count_over_escaped (b @ CHR ''/'' # rest)"
    by (simp only: count_occurrence)
  then show False using assms by simp
qed

lemma count_zero_clean:
  assumes "count_over_escaped s = 0"
  shows "\<not> has_over_escaped s"
proof
  assume "has_over_escaped s"
  then obtain x a b y where "s = (x @ ''= /'' @ a) @ over_escaped @ b @ CHR ''/'' # y"
    unfolding has_over_escaped_iff by auto
  then have "count_over_escaped s
      = count_over_escaped (x @ ''= /'' @ a) + 1 + count_over_escaped (b @ CHR ''/'' # y)"
    by (simp only: count_occurrence)
  then show False using assms by simp
qed

lemma word_not_backslash: "is_word c \<Longrightarrow> c \<noteq> backslash"
  by (auto simp: word_char_def in_ranges_def)

lemma rule1_keeps_over_escaped:
  "count_over_escaped (dotted_special_rule s) = count_over_escaped s"
proof (induction s rule: scan_induct)
  case Nil
  then show ?case by simp
next
  case (hit c r)
  have nb: "backslash \<notin> set (takeWhile is_word r)"
    using word_not_backslash by (auto dest: set_takeWhileD)
  have cb: "c \<noteq> backslash"
    using hit(1) by (rule word_not_backslash)
  have "count_over_escaped (''.@@'' @ c # r)
          = count_over_escaped ((''.@@'' @ c # takeWhile is_word r) @ dropWhile is_word r)"
    by simp
  also have "\<dots> = count_over_escaped (dropWhile is_word r)"
    using nb cb by (intro count_skip) simp
  finally have l: "count_over_escaped (''.@@'' @ c # r) = count_over_escaped (dropWhile is_word r)" .
  have "dotted_special_rule (''.@@'' @ c # r)
        = (''[`@@'' @ c # takeWhile is_word r @ ''`]'') @ dotted_special_rule (dropWhile is_word r)"
    using dotted_rule_hit [OF hit(1), of r] by simp
  then have "count_over_escaped (dotted_special_rule (''.@@'' @ c # r))
        = count_over_escaped ((''[`@@'' @ c # takeWhile is_word r @ ''`]'')
            @ dotted_special_rule (dropWhile is_word r))"
    by (rule arg_cong)
  also have "\<dots> = count_over_escaped (dotted_special_rule (dropWhile is_word r))"
    using nb cb by (intro count_skip) simp
  finally show ?case using hit(2) l by simp
next
  case (miss x s)
  have step: "dotted_special_rule (x # s) = x # dotted_special_rule s"
    using miss(1) by (rule dotted_rule_miss)
  have "prefix over_escaped (x # dotted_special_rule s) = prefix over_escaped (x # s)"
  proof
    assume "prefix over_escaped (x # dotted_special_rule s)"
    then obtain t where x: "x = backslash" and r1: "dotted_special_rule s = backslash # CHR ''/'' # t"
      by (auto simp: prefix_def)
    obtain s1 where s1: "s = backslash # s1" "dotted_special_rule s1 = CHR ''/'' # t"
      using rule1_head [OF r1] by auto
    obtain s2 where s2: "s1 = CHR ''/'' # s2"
      using rule1_head [OF s1(2)] by auto
    show "prefix over_escaped (x # s)"
      using x s1(1) s2 by simp
  next
    assume "prefix over_escaped (x # s)"
    then obtain r where x: "x = backslash" and s: "s = backslash # CHR ''/'' # r"
      by (auto simp: prefix_def)
    have "dotted_special_rule s = backslash # CHR ''/'' # dotted_special_rule r"
      unfolding s by (simp add: rule1_separator_Cons)
    then show "prefix over_escaped (x # dotted_special_rule s)"
      using x by simp
  qed
  then show ?case using miss(2) step by simp
qed

section \<open>The rules work line by line\<close>

text \<open>The last over-escaped sequence of a line that a slash still follows.\<close>

lemma last_repairable:
  assumes "repairable t" and "newline \<notin> set t"
  shows "\<exists>a w. t = a @ over_escaped @ w \<and> CHR ''/'' \<in> set w \<and> \<not> repairable w"
  using assms
proof (induction t rule: length_induct)
  case (1 t)
  from 1(2) obtain a b rest where t: "t = a @ over_escaped @ b @ CHR ''/'' # rest"
    unfolding repairable_iff by blast
  let ?w = "b @ CHR ''/'' # rest"
  show ?case
  proof (cases "repairable ?w")
    case False
    then have "t = a @ over_escaped @ ?w \<and> CHR ''/'' \<in> set ?w \<and> \<not> repairable ?w"
      using t by simp
    then show ?thesis by blast
  next
    case True
    have "length ?w < length t" unfolding t by simp
    moreover have "newline \<notin> set ?w" using 1(3) unfolding t by simp
    ultimately obtain a' w' where w': "?w = a' @ over_escaped @ w'"
      "CHR ''/'' \<in> set w'" "\<not> repairable w'"
      using 1(1) True by blast
    have "t = (a @ over_escaped @ a') @ over_escaped @ w'"
      using t w'(1) by simp
    then show ?thesis using w'(2,3) by blast
  qed
qed

lemma first_line:
  obtains l tail where "t = l @ tail" and "newline \<notin> set l" and "line_end tail"
proof
  show "t = takeWhile (\<lambda>c. c \<noteq> newline) t @ dropWhile (\<lambda>c. c \<noteq> newline) t"
    by simp
  show "newline \<notin> set (takeWhile (\<lambda>c. c \<noteq> newline) t)"
    by (auto dest: set_takeWhileD)
  show "line_end (dropWhile (\<lambda>c. c \<noteq> newline) t)"
    using hd_dropWhile [of "\<lambda>c. c \<noteq> newline" t] by auto
qed

text \<open>What rule 2 does where its pattern matches.\<close>

lemma rule2_unfold:
  assumes "prefix ''= /'' s" and "repairable (drop 3 s)"
  shows "\<exists>a w tail. s = ''= /'' @ a @ over_escaped @ w @ tail
           \<and> newline \<notin> set a \<and> newline \<notin> set w \<and> CHR ''/'' \<in> set w \<and> \<not> repairable w
           \<and> line_end tail
           \<and> over_escaped_rule s = ''= /'' @ a @ [backslash, CHR ''/''] @ w @ over_escaped_rule tail"
proof -
  obtain t where s: "s = ''= /'' @ t"
    using assms(1) by (auto simp: prefix_def)
  obtain l tail where t: "t = l @ tail" and l: "newline \<notin> set l" and tail: "line_end tail"
    by (rule first_line)
  have "repairable (l @ tail)"
    using assms(2) unfolding s t by simp
  then have "repairable l"
    using repairable_line [OF l tail] by simp
  then obtain a w where aw: "l = a @ over_escaped @ w" and w: "CHR ''/'' \<in> set w" "\<not> repairable w"
    using last_repairable l by blast
  have nla: "newline \<notin> set a" and nlw: "newline \<notin> set w"
    using l unfolding aw by auto
  have "newline \<notin> set (''= /'' @ a)"
    using nla by simp
  moreover have "\<exists>p a'. ''= /'' @ a = p @ ''= /'' @ a'"
    by (metis append_Nil)
  ultimately have "over_escaped_rule ((''= /'' @ a) @ over_escaped @ w @ tail)
      = (''= /'' @ a) @ [backslash, CHR ''/''] @ w @ over_escaped_rule tail"
    using nlw w tail by (rule rule2_repairs_rightmost)
  moreover have "s = (''= /'' @ a) @ over_escaped @ w @ tail"
    unfolding s t aw by simp
  ultimately have "s = ''= /'' @ a @ over_escaped @ w @ tail
     \<and> over_escaped_rule s = ''= /'' @ a @ [backslash, CHR ''/''] @ w @ over_escaped_rule tail"
    by simp
  then show ?thesis using nla nlw w tail by blast
qed

lemma rule2_count:
  assumes "c \<noteq> backslash"
  shows "count_list (over_escaped_rule s) c = count_list s c"
proof (induction s rule: length_induct)
  case (1 s)
  show ?case
  proof (cases s)
    case Nil
    then show ?thesis by simp
  next
    case (Cons x xs)
    show ?thesis
    proof (cases "prefix ''= /'' s \<and> repairable (drop 3 s)")
      case True
      then obtain a w tail where s: "s = ''= /'' @ a @ over_escaped @ w @ tail"
        and r: "over_escaped_rule s = ''= /'' @ a @ [backslash, CHR ''/''] @ w @ over_escaped_rule tail"
        using rule2_unfold by blast
      have "length tail < length s" unfolding s by simp
      then have "count_list (over_escaped_rule tail) c = count_list tail c"
        using 1 by blast
      then have "count_list (over_escaped_rule s) c
          = count_list (''= /'' @ a @ [backslash, CHR ''/''] @ w @ tail) c"
        unfolding r by simp
      also have "\<dots> = count_list (''= /'' @ a @ over_escaped @ w @ tail) c"
        using assms by simp
      also have "\<dots> = count_list s c"
        using s by simp
      finally show ?thesis .
    next
      case False
      then have "over_escaped_rule (x # xs) = x # over_escaped_rule xs"
        unfolding Cons by (rule rule2_miss)
      moreover have "count_list (over_escaped_rule xs) c = count_list xs c"
        using 1 Cons by simp
      ultimately show ?thesis unfolding Cons by simp
    qed
  qed
qed

text \<open>Rule 2 works on each line by itself.\<close>

lemma prefix_line:
  assumes "line_end tail"
  shows "prefix ''= /'' (l @ tail) = prefix ''= /'' l"
proof
  assume "prefix ''= /'' l"
  then show "prefix ''= /'' (l @ tail)" by (rule prefix_prefix)
next
  assume p: "prefix ''= /'' (l @ tail)"
  have "prefix ''= /'' (takeWhile (\<lambda>c. c \<noteq> newline) (l @ tail))"
    using p by (rule prefix_takeWhile) simp
  moreover have "prefix (takeWhile (\<lambda>c. c \<noteq> newline) (l @ tail)) l"
  proof (cases "\<forall>c \<in> set l. c \<noteq> newline")
    case True
    then have "takeWhile (\<lambda>c. c \<noteq> newline) (l @ tail) = l"
      using assms by (intro takeWhile_line) auto
    then show ?thesis by simp
  next
    case False
    then have "takeWhile (\<lambda>c. c \<noteq> newline) (l @ tail) = takeWhile (\<lambda>c. c \<noteq> newline) l"
      by auto
    then show ?thesis
      by (metis takeWhile_dropWhile_id prefixI)
  qed
  ultimately show "prefix ''= /'' l" by (rule prefix_order.trans)
qed

lemma rule2_line:
  assumes "newline \<notin> set l" and "line_end tail"
  shows "over_escaped_rule (l @ tail) = over_escaped_rule l @ over_escaped_rule tail"
  using assms(1)
proof (induction l)
  case Nil
  then show ?case by simp
next
  case (Cons c l)
  show ?case
  proof (cases "prefix ''= /'' (c # l) \<and> repairable (drop 3 (c # l))")
    case True
    then obtain t where t: "c # l = ''= /'' @ t" and rt: "repairable t"
      by (auto simp: prefix_def)
    have nlt: "newline \<notin> set t"
      using Cons.prems unfolding t by simp
    obtain a w where aw: "t = a @ over_escaped @ w" and w: "CHR ''/'' \<in> set w" "\<not> repairable w"
      using last_repairable [OF rt nlt] by blast
    have nlq: "newline \<notin> set (''= /'' @ a)" and nlw: "newline \<notin> set w"
      using nlt unfolding aw by auto
    have q: "\<exists>p a'. ''= /'' @ a = p @ ''= /'' @ a'"
      by (metis append_Nil)
    have e: "c # l = (''= /'' @ a) @ over_escaped @ w"
      unfolding t aw by simp
    have "over_escaped_rule ((''= /'' @ a) @ over_escaped @ w @ tail)
        = (''= /'' @ a) @ [backslash, CHR ''/''] @ w @ over_escaped_rule tail"
      using nlq q nlw w assms(2) by (rule rule2_repairs_rightmost)
    moreover have "over_escaped_rule ((''= /'' @ a) @ over_escaped @ w @ [])
        = (''= /'' @ a) @ [backslash, CHR ''/''] @ w @ over_escaped_rule []"
      using nlq q nlw w by (rule rule2_repairs_rightmost) simp
    ultimately show ?thesis
      unfolding e by simp
  next
    case False
    have "\<not> (prefix ''= /'' (c # l @ tail) \<and> repairable (drop 3 (c # l @ tail)))"
    proof
      assume h: "prefix ''= /'' (c # l @ tail) \<and> repairable (drop 3 (c # l @ tail))"
      then have "prefix ''= /'' ((c # l) @ tail)" by simp
      then have p: "prefix ''= /'' (c # l)"
        using prefix_line [OF assms(2)] by blast
      then obtain t where t: "c # l = ''= /'' @ t"
        by (auto simp: prefix_def)
      have nlt: "newline \<notin> set t"
        using Cons.prems unfolding t by simp
      have "c # l @ tail = ''= /'' @ t @ tail"
        using t by (metis append_Cons append_assoc)
      then have "repairable (t @ tail)"
        using h by simp
      then have "repairable t"
        using repairable_line [OF nlt assms(2)] by simp
      then have "repairable (drop 3 (c # l))"
        unfolding t by simp
      with p False show False by blast
    qed
    then have "over_escaped_rule (c # l @ tail) = c # over_escaped_rule (l @ tail)"
      by (rule rule2_miss)
    moreover have "over_escaped_rule (c # l) = c # over_escaped_rule l"
      using False by (rule rule2_miss)
    ultimately show ?thesis using Cons by simp
  qed
qed

lemma rule2_newline_Cons: "over_escaped_rule (newline # y) = newline # over_escaped_rule y"
  by (rule rule2_miss) simp

lemma rule2_newline:
  "over_escaped_rule (x @ newline # y) = over_escaped_rule x @ newline # over_escaped_rule y"
proof (induction x rule: length_induct)
  case (1 x)
  obtain l tail where x: "x = l @ tail" and l: "newline \<notin> set l" and tail: "line_end tail"
    by (rule first_line)
  have "line_end (tail @ newline # y)"
    using tail by (cases tail) auto
  then have a: "over_escaped_rule (l @ tail @ newline # y)
      = over_escaped_rule l @ over_escaped_rule (tail @ newline # y)"
    using l by (intro rule2_line)
  have b: "over_escaped_rule (l @ tail) = over_escaped_rule l @ over_escaped_rule tail"
    using l tail by (rule rule2_line)
  show ?case
  proof (cases tail)
    case Nil
    then show ?thesis using a b x by (simp add: rule2_newline_Cons)
  next
    case (Cons d x')
    then have d: "d = newline" using tail by simp
    have "length x' < length x" unfolding x Cons by simp
    then have "over_escaped_rule (x' @ newline # y)
        = over_escaped_rule x' @ newline # over_escaped_rule y"
      using 1 by blast
    then show ?thesis
      using a b unfolding x Cons d by (simp add: rule2_newline_Cons)
  qed
qed

text \<open>A pass, and so the whole loop, works on each line by itself.\<close>

lemma single_pass_newline:
  "single_pass (x @ newline # y) = single_pass x @ newline # single_pass y"
  by (simp add: single_pass_def rule1_separator rule2_newline)

lemma single_pass_Nil [simp]: "single_pass [] = []"
  by (simp add: single_pass_def)

lemma loop_as_passes: "rewrite_loop n text = (single_pass ^^ nat n) text"
proof -
  have "apply_replacements = single_pass"
    by (rule ext) (rule apply_replacements_single_pass)
  then show ?thesis by (simp add: rewrite_loop_funpow)
qed

lemma passes_newline:
  "(single_pass ^^ m) (x @ newline # y) = (single_pass ^^ m) x @ newline # (single_pass ^^ m) y"
  by (induction m) (simp_all add: single_pass_newline)

lemma loop_newline:
  "rewrite_loop n (x @ newline # y) = rewrite_loop n x @ newline # rewrite_loop n y"
  by (simp add: loop_as_passes passes_newline)

lemma loop_Nil [simp]: "rewrite_loop n [] = []"
  by (simp add: loop_as_passes funpow_fixed)

lemma loop_context:
  assumes "line_start before" and "line_end tail"
  shows "rewrite_loop n (before @ l @ tail)
           = rewrite_loop n before @ rewrite_loop n l @ rewrite_loop n tail"
proof -
  have right: "rewrite_loop n (l @ tail) = rewrite_loop n l @ rewrite_loop n tail"
  proof (cases tail)
    case Nil
    then show ?thesis by simp
  next
    case (Cons d t)
    then have d: "d = newline" using assms(2) by simp
    have "rewrite_loop n ([] @ newline # t) = rewrite_loop n [] @ newline # rewrite_loop n t"
      by (rule loop_newline)
    then show ?thesis unfolding Cons d by (simp add: loop_newline)
  qed
  show ?thesis
  proof (cases "before = []")
    case True
    then show ?thesis using right by simp
  next
    case False
    then have b: "before = butlast before @ [newline]"
      using assms(1) by (metis append_butlast_last_id)
    have "rewrite_loop n (butlast before @ newline # (l @ tail))
        = rewrite_loop n (butlast before) @ newline # rewrite_loop n (l @ tail)"
      by (rule loop_newline)
    moreover have "rewrite_loop n (butlast before @ newline # [])
        = rewrite_loop n (butlast before) @ newline # rewrite_loop n []"
      by (rule loop_newline)
    ultimately show ?thesis
      using right by (subst (1 2) b) simp
  qed
qed

lemma rule2_context:
  assumes "line_start before" and "line_end tail"
  shows "over_escaped_rule (before @ l @ tail)
           = over_escaped_rule before @ over_escaped_rule l @ over_escaped_rule tail"

proof -
  have right: "over_escaped_rule (l @ tail) = over_escaped_rule l @ over_escaped_rule tail"
  proof (cases tail)
    case Nil
    then show ?thesis by simp
  next
    case (Cons d t)
    then have d: "d = newline" using assms(2) by simp
    show ?thesis unfolding Cons d by (simp add: rule2_newline rule2_newline_Cons)
  qed
  show ?thesis
  proof (cases "before = []")
    case True
    then show ?thesis using right by simp
  next
    case False
    then have b: "before = butlast before @ [newline]"
      using assms(1) by (metis append_butlast_last_id)
    have "over_escaped_rule (butlast before @ newline # (l @ tail))
        = over_escaped_rule (butlast before) @ newline # over_escaped_rule (l @ tail)"
      by (rule rule2_newline)
    moreover have "over_escaped_rule (butlast before @ newline # [])
        = over_escaped_rule (butlast before) @ newline # over_escaped_rule []"
      by (rule rule2_newline)
    ultimately show ?thesis
      using right by (subst (1 2) b) simp
  qed
qed

section \<open>One pass on a line\<close>

lemma rule1_set:
  assumes "c \<notin> set ''.[`]''"
  shows "c \<in> set (dotted_special_rule s) \<longleftrightarrow> c \<in> set s"
  using rule1_count [OF assms, of s] by (metis count_list_0_iff)

lemma rule1_newline_free [simp]:
  "newline \<in> set (dotted_special_rule s) \<longleftrightarrow> newline \<in> set s"
  by (rule rule1_set) simp

lemma rule1_slash [simp]:
  "CHR ''/'' \<in> set (dotted_special_rule s) \<longleftrightarrow> CHR ''/'' \<in> set s"
  by (rule rule1_set) simp

lemma rule1_over_escaped:
  "dotted_special_rule (q @ over_escaped @ w)
     = dotted_special_rule q @ over_escaped @ dotted_special_rule w"
  by (simp add: rule1_separator rule1_separator_Cons)

lemma rule1_corrected:
  "dotted_special_rule (q @ [backslash, CHR ''/''] @ w)
     = dotted_special_rule q @ [backslash, CHR ''/''] @ dotted_special_rule w"
  by (simp add: rule1_separator rule1_separator_Cons)

lemma rule1_assignment:
  "dotted_special_rule (p @ ''= /'' @ a) = dotted_special_rule p @ ''= /'' @ dotted_special_rule a"
  by (simp add: rule1_separator rule1_separator_Cons)

text \<open>One pass on a line whose last over-escaped sequence is followed by a slash.\<close>

lemma pass_repairs_last:
  assumes q: "newline \<notin> set q" and has: "\<exists>p a. q = p @ ''= /'' @ a"
    and w: "newline \<notin> set w" "CHR ''/'' \<in> set w" "count_over_escaped w = 0"
  shows "single_pass (q @ over_escaped @ w) = dotted_special_rule (q @ [backslash, CHR ''/''] @ w)"
proof -
  from has obtain p a where pa: "q = p @ ''= /'' @ a" by blast
  have 1: "newline \<notin> set (dotted_special_rule q)"
    using q by simp
  have 2: "\<exists>p' a'. dotted_special_rule q = p' @ ''= /'' @ a'"
    unfolding pa rule1_assignment by blast
  have 3: "newline \<notin> set (dotted_special_rule w)" "CHR ''/'' \<in> set (dotted_special_rule w)"
    using w(1,2) by simp_all
  have "count_over_escaped (dotted_special_rule w) = 0"
    using w(3) by (simp add: rule1_keeps_over_escaped)
  then have 4: "\<not> repairable (dotted_special_rule w)"
    by (rule count_zero_not_repairable)
  have "over_escaped_rule (dotted_special_rule q @ over_escaped @ dotted_special_rule w @ [])
      = dotted_special_rule q @ [backslash, CHR ''/''] @ dotted_special_rule w @ over_escaped_rule []"
    using 1 2 3 4 by (rule rule2_repairs_rightmost) simp
  then show ?thesis
    unfolding single_pass_def rule1_over_escaped rule1_corrected by simp
qed

lemma pass_clean:
  assumes "count_over_escaped s = 0"
  shows "single_pass (dotted_special_rule s) = dotted_special_rule s"
proof -
  have "count_over_escaped (dotted_special_rule s) = 0"
    using assms by (simp add: rule1_keeps_over_escaped)
  then have "\<not> has_over_escaped (dotted_special_rule s)"
    by (rule count_zero_clean)
  then show ?thesis
    by (simp add: single_pass_def rule1_idempotent rule2_clean)
qed

lemma pass_after_rule1: "single_pass (dotted_special_rule s) = single_pass s"
  by (simp add: single_pass_def rule1_idempotent)

lemma pass_count:
  assumes "c \<notin> set ''.[`]''" and "c \<noteq> backslash"
  shows "count_list (single_pass s) c = count_list s c"
  using assms by (simp add: single_pass_def rule2_count rule1_count)

lemma passes_count:
  assumes "c \<notin> set ''.[`]''" and "c \<noteq> backslash"
  shows "count_list ((single_pass ^^ m) s) c = count_list s c"
  using assms by (induction m) (simp_all add: pass_count)

lemma rule1_occurrence:
  assumes "ident \<noteq> []" and "\<forall>c \<in> set ident. is_word c" and "y = [] \<or> \<not> is_word (hd y)"
  shows "dotted_special_rule (x @ ''.@@'' @ ident @ y)
           = dotted_special_rule x @ ''[`@@'' @ ident @ ''`]'' @ dotted_special_rule y"
proof -
  obtain d ds where ident: "ident = d # ds"
    using assms(1) by (cases ident) auto
  have d: "is_word d" and ds: "\<And>c. c \<in> set ds \<Longrightarrow> is_word c"
    using assms(2) unfolding ident by auto
  have y: "takeWhile is_word y = []" "dropWhile is_word y = y"
    using assms(3) by (cases y; auto)+
  have t: "takeWhile is_word (ds @ y) = ds"
    using ds y(1) by (simp add: takeWhile_append2)
  have r: "dropWhile is_word (ds @ y) = y"
    using ds y(2) by (simp add: dropWhile_append2)
  have "\<not> is_word (CHR ''.'')"
    by (simp add: word_char_def in_ranges_def)
  then have "dotted_special_rule (x @ CHR ''.'' # (''@@'' @ ident @ y))
      = dotted_special_rule x @ dotted_special_rule (CHR ''.'' # (''@@'' @ ident @ y))"
    by (rule rule1_boundary) simp
  moreover have "dotted_special_rule (''.@@'' @ d # (ds @ y))
      = ''[`@@'' @ d # takeWhile is_word (ds @ y) @ ''`]''
          @ dotted_special_rule (dropWhile is_word (ds @ y))"
    using d by (rule dotted_rule_hit)
  ultimately show ?thesis
    unfolding t r ident by simp
qed

lemma loop_one: "rewrite_loop 1 text = single_pass text"
  by (simp add: loop_as_passes)

text \<open>A line with one over-escaped sequence.\<close>

lemma one_on_a_line:
  assumes nl: "newline \<notin> set (p @ a @ w)"
    and one: "count_over_escaped (p @ ''= /'' @ a @ over_escaped @ w) = 1"
    and slash: "CHR ''/'' \<in> set w"
  shows "single_pass (p @ ''= /'' @ a @ over_escaped @ w)
           = dotted_special_rule (p @ ''= /'' @ a @ [backslash, CHR ''/''] @ w)"
proof -
  let ?q = "p @ ''= /'' @ a"
  have "count_over_escaped (?q @ over_escaped @ w)
      = count_over_escaped ?q + 1 + count_over_escaped w"
    by (rule count_occurrence)
  then have w0: "count_over_escaped w = 0"
    using one by simp
  have "newline \<notin> set ?q" "newline \<notin> set w"
    using nl by simp_all
  moreover have "\<exists>p' a'. ?q = p' @ ''= /'' @ a'"
    by blast
  ultimately have "single_pass (?q @ over_escaped @ w)
      = dotted_special_rule (?q @ [backslash, CHR ''/''] @ w)"
    using slash w0 by (intro pass_repairs_last)
  then show ?thesis by simp
qed

text \<open>A line with two over-escaped sequences.\<close>

lemma two_on_a_line:
  assumes nl: "newline \<notin> set (p @ a @ b @ w)"
    and two: "count_over_escaped (p @ ''= /'' @ a @ over_escaped @ b @ over_escaped @ w) = 2"
    and slash: "CHR ''/'' \<in> set w"
    and na: "a = [] \<or> last a \<noteq> backslash" and nb: "b = [] \<or> last b \<noteq> backslash"
  shows "single_pass (p @ ''= /'' @ a @ over_escaped @ b @ over_escaped @ w)
           = dotted_special_rule (p @ ''= /'' @ a @ over_escaped @ b @ [backslash, CHR ''/''] @ w)"
    and "count_over_escaped
           (dotted_special_rule (p @ ''= /'' @ a @ over_escaped @ b @ [backslash, CHR ''/''] @ w)) = 1"
    and "(single_pass ^^ (Suc (Suc m))) (p @ ''= /'' @ a @ over_escaped @ b @ over_escaped @ w)
           = dotted_special_rule
               (p @ ''= /'' @ a @ [backslash, CHR ''/''] @ b @ [backslash, CHR ''/''] @ w)"
    and "count_over_escaped
           (dotted_special_rule
              (p @ ''= /'' @ a @ [backslash, CHR ''/''] @ b @ [backslash, CHR ''/''] @ w)) = 0"
proof -
  let ?q = "p @ ''= /'' @ a"
  let ?w' = "b @ [backslash, CHR ''/''] @ w"
  let ?line = "p @ ''= /'' @ a @ over_escaped @ b @ over_escaped @ w"
  let ?L1 = "p @ ''= /'' @ a @ over_escaped @ b @ [backslash, CHR ''/''] @ w"
  let ?L2 = "p @ ''= /'' @ a @ [backslash, CHR ''/''] @ b @ [backslash, CHR ''/''] @ w"
  have "count_over_escaped ((?q @ over_escaped @ b) @ over_escaped @ w)
      = count_over_escaped (?q @ over_escaped @ b) + 1 + count_over_escaped w"
    by (rule count_occurrence)
  moreover have "count_over_escaped (?q @ over_escaped @ b)
      = count_over_escaped ?q + 1 + count_over_escaped b"
    by (rule count_occurrence)
  ultimately have "count_over_escaped ?q + count_over_escaped b + count_over_escaped w = 0"
    using two by simp
  then have q0: "count_over_escaped ?q = 0" and b0: "count_over_escaped b = 0"
    and w0: "count_over_escaped w = 0"
    by simp_all
  have w'0: "count_over_escaped ?w' = 0"
    using count_corrected [OF nb, of w] b0 w0 by simp
  have nlq: "newline \<notin> set ?q" and nlb: "newline \<notin> set b" and nlw: "newline \<notin> set w"
    using nl by simp_all
  have hasq: "\<exists>p' a'. ?q = p' @ ''= /'' @ a'"
    by blast
  have "newline \<notin> set (?q @ over_escaped @ b)"
    using nlq nlb by simp
  moreover have "\<exists>p' a'. ?q @ over_escaped @ b = p' @ ''= /'' @ a'"
    by (metis append_assoc)
  ultimately have "single_pass ((?q @ over_escaped @ b) @ over_escaped @ w)
      = dotted_special_rule ((?q @ over_escaped @ b) @ [backslash, CHR ''/''] @ w)"
    using nlw slash w0 by (rule pass_repairs_last)
  then show first: "single_pass ?line = dotted_special_rule ?L1"
    by simp
  have "count_over_escaped (?q @ over_escaped @ ?w')
      = count_over_escaped ?q + 1 + count_over_escaped ?w'"
    by (rule count_occurrence)
  then have "count_over_escaped ?L1 = 1"
    using q0 w'0 by simp
  then show "count_over_escaped (dotted_special_rule ?L1) = 1"
    by (simp only: rule1_keeps_over_escaped)
  have "newline \<notin> set ?w'" "CHR ''/'' \<in> set ?w'"
    using nlb nlw by simp_all
  with nlq hasq have "single_pass (?q @ over_escaped @ ?w')
      = dotted_special_rule (?q @ [backslash, CHR ''/''] @ ?w')"
    using w'0 by (rule pass_repairs_last)
  then have second: "single_pass (dotted_special_rule ?L1) = dotted_special_rule ?L2"
    unfolding pass_after_rule1 by simp
  have "?q = [] \<or> last ?q \<noteq> backslash"
    using na by auto
  then have "count_over_escaped (?q @ backslash # CHR ''/'' # ?w')
      = count_over_escaped ?q + count_over_escaped ?w'"
    by (rule count_corrected)
  then have L20: "count_over_escaped ?L2 = 0"
    using q0 w'0 by simp
  then show "count_over_escaped (dotted_special_rule ?L2) = 0"
    by (simp only: rule1_keeps_over_escaped)
  have "single_pass (dotted_special_rule ?L2) = dotted_special_rule ?L2"
    using L20 by (rule pass_clean)
  then have "(single_pass ^^ m) (dotted_special_rule ?L2) = dotted_special_rule ?L2"
    by (rule funpow_fixed)
  moreover have "(single_pass ^^ (Suc (Suc m))) ?line
      = (single_pass ^^ m) (single_pass (single_pass ?line))"
    by (simp add: funpow_swap1)
  ultimately show "(single_pass ^^ (Suc (Suc m))) ?line = dotted_special_rule ?L2"
    using first second by simp
qed

text \<open>
  Claim C1. For every text and every iteration count \<open>n\<close>, the loop returns the
  \<open>n\<close>-fold composition of one pass, a pass being rule 1 on the whole text followed by
  rule 2 on rule 1's output; all \<open>n\<close> passes are made, whether or not a pass changes
  the text. (A count below zero makes no pass, as \<open>nat n = 0\<close> then.)
\<close>

theorem rewrite_loop_is_iterated_pass:
  "rewrite_loop n text = (single_pass ^^ nat n) text"
proof -
  have "apply_replacements = single_pass"
    by (rule ext) (rule apply_replacements_single_pass)
  then show ?thesis by (simp add: rewrite_loop_funpow)
qed

text \<open>
  Claim C7. With an iteration count of zero the loop returns its input, whatever the
  text contains.
\<close>

theorem zero_iterations_identity: "rewrite_loop 0 text = text"
  by (simp add: rewrite_loop_def)

text \<open>
  Claim C4. When pass \<open>k + 1\<close> returns what pass \<open>k\<close> returned, every larger iteration
  count returns that same text.
\<close>

theorem fixed_point_stays:
  assumes "0 \<le> k" and "rewrite_loop (k + 1) text = rewrite_loop k text" and "k \<le> k'"
  shows "rewrite_loop k' text = rewrite_loop k text"
proof -
  let ?x = "rewrite_loop k text"
  have fixed: "apply_replacements ?x = ?x"
    using assms(1,2) by (simp add: rewrite_loop_step)
  have "nat k' = (nat k' - nat k) + nat k"
    using assms(1,3) by simp
  then have "rewrite_loop k' text = (apply_replacements ^^ (nat k' - nat k)) ?x"
    by (metis rewrite_loop_funpow funpow_add o_apply)
  then show ?thesis
    using fixed by (simp add: funpow_fixed)
qed

theorem fixed_point_stays_witness:
  "rewrite_loop (1 + 1) (''var r = /a'' @ [backslash, backslash] @ ''/b/;'')
     = rewrite_loop 1 (''var r = /a'' @ [backslash, backslash] @ ''/b/;'')
   \<and> rewrite_loop 100 (''var r = /a'' @ [backslash, backslash] @ ''/b/;'')
     = ''var r = /a'' @ [backslash] @ ''/b/;''"
proof -
  let ?t = "''var r = /a'' @ [backslash, backslash] @ ''/b/;''"
  have one: "rewrite_loop 1 ?t = ''var r = /a'' @ [backslash] @ ''/b/;''"
    by code_simp
  have two: "rewrite_loop (1 + 1) ?t = ''var r = /a'' @ [backslash] @ ''/b/;''"
    by code_simp
  have "rewrite_loop 100 ?t = rewrite_loop 1 ?t"
    using fixed_point_stays [of 1 ?t 100] one two by simp
  then show ?thesis using one two by simp
qed

section \<open>Failure to read the input\<close>

text \<open>
  Claim C9. When the input file cannot be read, a run of the tool on parsed arguments
  ends with a nonzero exit status and leaves the file system as it found it: the
  failure comes before any rewriting and before the output file is opened.
\<close>

theorem unreadable_input_aborts:
  assumes "readable fs (file_arg args) = None"
  shows "fix_react_native_hermes_decompilation fs (file_arg args) (iterations args)
           = Inl ReadError
         \<and> fst (main fs (Parsed args)) = fs \<and> snd (main fs (Parsed args)) \<noteq> 0"
  using assms by (simp add: fix_react_native_hermes_decompilation_def read_text_def)

theorem unreadable_input_aborts_witness:
  "readable \<lparr>readable = Map.empty, writable = (\<lambda>p. True)\<rparr> ''index.js'' = None
   \<and> main \<lparr>readable = Map.empty, writable = (\<lambda>p. True)\<rparr>
        (Parsed \<lparr>file_arg = ''index.js'', out = None, iterations = 100, verbose = False\<rparr>)
     = (\<lparr>readable = Map.empty, writable = (\<lambda>p. True)\<rparr>, 1)"
  using unreadable_input_aborts
    [of "\<lparr>readable = Map.empty, writable = (\<lambda>p. True)\<rparr>"
        "\<lparr>file_arg = ''index.js'', out = None, iterations = 100, verbose = False\<rparr>"]
  by (simp add: fix_react_native_hermes_decompilation_def read_text_def)

section \<open>Text without defects\<close>

text \<open>
  Claim C8. A text in which neither pattern occurs (no dot followed by two at-signs and
  a word character; no \<^verbatim>\<open>= /\<close> followed on its line by an over-escaped sequence with a
  slash after it, see \<open>has_dotted_special_iff\<close> and \<open>has_over_escaped_iff\<close>) is returned
  as it is for every iteration count, and so is the empty text.
\<close>

theorem clean_text_unchanged:
  "(\<not> has_dotted_special text \<and> \<not> has_over_escaped text \<longrightarrow> rewrite_loop n text = text)
   \<and> rewrite_loop n [] = []"
proof -
  have "single_pass text = text" if "\<not> has_dotted_special text" "\<not> has_over_escaped text"
    using that by (simp add: single_pass_def rule1_clean rule2_clean)
  moreover have "single_pass [] = []"
    by (simp add: single_pass_def rule1_clean rule2_clean)
  ultimately show ?thesis
    by (simp add: rewrite_loop_funpow apply_replacements_single_pass [abs_def] funpow_fixed)
qed

theorem clean_text_unchanged_witness:
  "\<not> has_dotted_special (''var r = /ab/; x.@@ y'' @ [backslash, backslash] @ ''/'' @ [newline])
   \<and> \<not> has_over_escaped (''var r = /ab/; x.@@ y'' @ [backslash, backslash] @ ''/'' @ [newline])
   \<and> rewrite_loop 100 (''var r = /ab/; x.@@ y'' @ [backslash, backslash] @ ''/'' @ [newline])
       = ''var r = /ab/; x.@@ y'' @ [backslash, backslash] @ ''/'' @ [newline]"
proof -
  let ?t = "''var r = /ab/; x.@@ y'' @ [backslash, backslash] @ ''/'' @ [newline]"
  have a: "\<not> has_dotted_special ?t" by code_simp
  have b: "\<not> has_over_escaped ?t" by code_simp
  show ?thesis
    using clean_text_unchanged [of ?t 100] a b by simp
qed

section \<open>Lines\<close>

text \<open>
  Claim C10. For every text and every iteration count the result has as many newline
  characters as the text; and what stands before a newline is rewritten by itself, as
  is what stands after it: no match crosses a newline, and no replacement adds or
  removes one.
\<close>

theorem newlines_preserved:
  "count_list (rewrite_loop n text) newline = count_list text newline
   \<and> rewrite_loop n (x @ newline # y) = rewrite_loop n x @ newline # rewrite_loop n y"
proof
  show "count_list (rewrite_loop n text) newline = count_list text newline"
    unfolding loop_as_passes by (rule passes_count) simp_all
  show "rewrite_loop n (x @ newline # y) = rewrite_loop n x @ newline # rewrite_loop n y"
    by (rule loop_newline)
qed

section \<open>The first rule\<close>

text \<open>
  Claim C5. Wherever a dot, two at-signs and an identifier stand in a text (\<open>ident\<close> is
  a run of word characters, not empty, that no word character follows), the first rule
  puts the at-signs and the identifier between \<^verbatim>\<open>[`\<close> and \<^verbatim>\<open>`]\<close>, and what stands before and
  after is rewritten by itself; no occurrence of the pattern is left in the rule's
  result; and one iteration turns \<^verbatim>\<open>obj.@@iterator\<close> into \<^verbatim>\<open>obj[`@@iterator`]\<close>. (Lemma
  \<open>dotted_rule_is_rewrite\<close> gives the rule as a left-to-right scan.)
\<close>

theorem dotted_special_rewritten:
  "(ident \<noteq> [] \<and> (\<forall>c \<in> set ident. is_word c) \<and> (y = [] \<or> \<not> is_word (hd y))
      \<longrightarrow> dotted_special_rule (x @ ''.@@'' @ ident @ y)
            = dotted_special_rule x @ ''[`@@'' @ ident @ ''`]'' @ dotted_special_rule y)
   \<and> \<not> has_dotted_special (dotted_special_rule text)
   \<and> rewrite_loop 1 ''obj.@@iterator'' = ''obj[`@@iterator`]''"
proof (intro conjI impI)
  assume "ident \<noteq> [] \<and> (\<forall>c \<in> set ident. is_word c) \<and> (y = [] \<or> \<not> is_word (hd y))"
  then show "dotted_special_rule (x @ ''.@@'' @ ident @ y)
            = dotted_special_rule x @ ''[`@@'' @ ident @ ''`]'' @ dotted_special_rule y"
    by (intro rule1_occurrence) simp_all
next
  show "\<not> has_dotted_special (dotted_special_rule text)"
    by (rule rule1_leaves_none)
next
  show "rewrite_loop 1 ''obj.@@iterator'' = ''obj[`@@iterator`]''"
    by code_simp
qed

theorem dotted_special_rewritten_witness:
  "''iterator'' \<noteq> [] \<and> list_all is_word ''iterator'' \<and> \<not> is_word (hd ''](x);'')
   \<and> dotted_special_rule (''for (k of m[obj'' @ ''.@@'' @ ''iterator'' @ ''](x);'')
       = ''for (k of m[obj'' @ ''[`@@'' @ ''iterator'' @ ''`]'' @ ''](x);''"
proof -
  have h: "''iterator'' \<noteq> []" "list_all is_word ''iterator''" "\<not> is_word (hd ''](x);'')"
    by code_simp+
  have e: "dotted_special_rule ''for (k of m[obj'' = ''for (k of m[obj''"
    "dotted_special_rule ''](x);'' = ''](x);''"
    by code_simp+
  have "dotted_special_rule (''for (k of m[obj'' @ ''.@@'' @ ''iterator'' @ ''](x);'')
       = dotted_special_rule ''for (k of m[obj'' @ ''[`@@'' @ ''iterator'' @ ''`]''
           @ dotted_special_rule ''](x);''"
    using dotted_special_rewritten [of "''iterator''" "''](x);''" "''for (k of m[obj''"] h
    unfolding list_all_iff by blast
  then show ?thesis using h unfolding e by blast
qed

section \<open>The second rule on a line with one over-escaped slash\<close>

text \<open>
  Claim C6. A line \<open>p\<close>, \<^verbatim>\<open>= /\<close>, \<open>a\<close>, over-escaped sequence, \<open>w\<close> (with a slash in \<open>w\<close>)
  that holds one over-escaped sequence only, standing anywhere in a text: one iteration
  returns the line with a backslash and a slash in place of the sequence, and with the
  first rule applied to it; the text before and the text after the line are rewritten
  by themselves. So \<^verbatim>\<open>var r = /a\\/b/;\<close> becomes \<^verbatim>\<open>var r = /a\/b/;\<close>.
\<close>

theorem single_over_escaped_repaired:
  assumes "newline \<notin> set (p @ a @ w)"
    and "count_over_escaped (p @ ''= /'' @ a @ over_escaped @ w) = 1"
    and "CHR ''/'' \<in> set w"
    and "line_start before" and "line_end tail"
  shows "rewrite_loop 1 (before @ (p @ ''= /'' @ a @ over_escaped @ w) @ tail)
           = rewrite_loop 1 before
               @ dotted_special_rule (p @ ''= /'' @ a @ [backslash, CHR ''/''] @ w)
               @ rewrite_loop 1 tail"
proof -
  have "rewrite_loop 1 (p @ ''= /'' @ a @ over_escaped @ w)
      = dotted_special_rule (p @ ''= /'' @ a @ [backslash, CHR ''/''] @ w)"
    unfolding loop_one using assms(1-3) by (rule one_on_a_line)
  then show ?thesis
    using loop_context [OF assms(4,5), of 1 "p @ ''= /'' @ a @ over_escaped @ w"] by simp
qed

theorem single_over_escaped_repaired_witness:
  "newline \<notin> set (''var r '' @ ''a'' @ ''b/;'')
   \<and> count_over_escaped (''var r '' @ ''= /'' @ ''a'' @ over_escaped @ ''b/;'') = 1
   \<and> CHR ''/'' \<in> set ''b/;''
   \<and> rewrite_loop 1 (''var r = /a'' @ [backslash, backslash] @ ''/b/;'')
       = ''var r = /a'' @ [backslash] @ ''/b/;''"
proof -
  have h: "newline \<notin> set (''var r '' @ ''a'' @ ''b/;'')"
    "count_over_escaped (''var r '' @ ''= /'' @ ''a'' @ over_escaped @ ''b/;'') = 1"
    "CHR ''/'' \<in> set ''b/;''"
    "line_start []" "line_end []"
    by simp_all
  have e: "dotted_special_rule (''var r '' @ ''= /'' @ ''a'' @ [backslash, CHR ''/''] @ ''b/;'')
      = ''var r = /a'' @ [backslash] @ ''/b/;''"
    by code_simp
  have "rewrite_loop 1 ([] @ (''var r '' @ ''= /'' @ ''a'' @ over_escaped @ ''b/;'') @ [])
      = rewrite_loop 1 [] @ (''var r = /a'' @ [backslash] @ ''/b/;'') @ rewrite_loop 1 []"
    using single_over_escaped_repaired [OF h] unfolding e .
  then show ?thesis using h(1-3) by simp
qed

section \<open>Several over-escaped slashes on one line\<close>

text \<open>
  Claim C2, as the specification words it: of several over-escaped sequences on a line,
  one application of rule 2 corrects the leftmost. On the line
  \<^verbatim>\<open>x = /a\\/b\\/c/;\<close> the rule returns \<^verbatim>\<open>x = /a\\/b\/c/;\<close>: the occurrence corrected is the
  one on the right, and the leftmost is left in place.
\<close>

theorem leftmost_occurrence_left_in_place:
  "over_escaped_rule (''x = /a'' @ over_escaped @ ''b'' @ over_escaped @ ''c/;'')
     = ''x = /a'' @ over_escaped @ ''b'' @ [backslash, CHR ''/''] @ ''c/;''
   \<and> over_escaped_rule (''x = /a'' @ over_escaped @ ''b'' @ over_escaped @ ''c/;'')
     \<noteq> ''x = /a'' @ [backslash, CHR ''/''] @ ''b'' @ over_escaped @ ''c/;''"
  by code_simp

text \<open>
  Claim C2, amended. Group 1 of the pattern is greedy, so one application of rule 2
  corrects, on a line that holds \<^verbatim>\<open>= /\<close>, the rightmost over-escaped sequence that
  still has a slash after it on the line (\<open>w\<close> holds a slash and no further sequence
  followed by a slash), and copies everything to its left, other over-escaped sequences
  included (they may stand in \<open>a\<close>), unchanged. The line is \<open>p\<close>, \<^verbatim>\<open>= /\<close>, \<open>a\<close>,
  the sequence, \<open>w\<close>; \<open>before\<close> and \<open>tail\<close> are the text around the line.
\<close>

theorem rule2_corrects_rightmost_only:
  assumes "newline \<notin> set (p @ a @ w)"
    and "CHR ''/'' \<in> set w" and "\<not> repairable w"
    and "line_start before" and "line_end tail"
  shows "over_escaped_rule (before @ (p @ ''= /'' @ a @ over_escaped @ w) @ tail)
           = over_escaped_rule before
               @ (p @ ''= /'' @ a @ [backslash, CHR ''/''] @ w)
               @ over_escaped_rule tail"
proof -
  have "newline \<notin> set (p @ ''= /'' @ a)" and nlw: "newline \<notin> set w"
    using assms(1) by simp_all
  moreover have "\<exists>p' a'. p @ ''= /'' @ a = p' @ ''= /'' @ a'"
    by blast
  ultimately have "over_escaped_rule ((p @ ''= /'' @ a) @ over_escaped @ w @ [])
      = (p @ ''= /'' @ a) @ [backslash, CHR ''/''] @ w @ over_escaped_rule []"
    using assms(2,3) by (intro rule2_repairs_rightmost) simp_all
  then have "over_escaped_rule (p @ ''= /'' @ a @ over_escaped @ w)
      = p @ ''= /'' @ a @ [backslash, CHR ''/''] @ w"
    by simp
  then show ?thesis
    using rule2_context [OF assms(4,5), of "p @ ''= /'' @ a @ over_escaped @ w"] by simp
qed

theorem rule2_corrects_rightmost_only_witness:
  "newline \<notin> set (''x '' @ (''a'' @ over_escaped @ ''b'') @ ''c/;'')
   \<and> CHR ''/'' \<in> set ''c/;'' \<and> \<not> repairable ''c/;''
   \<and> last (''// '' @ over_escaped @ [newline]) = newline \<and> hd (newline # ''y = /c/'') = newline
   \<and> over_escaped_rule ((''// '' @ over_escaped @ [newline])
        @ (''x '' @ ''= /'' @ (''a'' @ over_escaped @ ''b'') @ over_escaped @ ''c/;'')
        @ (newline # ''y = /c/''))
       = (''// '' @ over_escaped @ [newline])
           @ (''x '' @ ''= /'' @ (''a'' @ over_escaped @ ''b'') @ [backslash, CHR ''/''] @ ''c/;'')
           @ (newline # ''y = /c/'')"
proof -
  have h: "newline \<notin> set (''x '' @ (''a'' @ over_escaped @ ''b'') @ ''c/;'')"
    "CHR ''/'' \<in> set ''c/;''" "\<not> repairable ''c/;''"
    "line_start (''// '' @ over_escaped @ [newline])" "line_end (newline # ''y = /c/'')"
    by simp_all
  have e: "over_escaped_rule (''// '' @ over_escaped @ [newline]) = ''// '' @ over_escaped @ [newline]"
    "over_escaped_rule (newline # ''y = /c/'') = newline # ''y = /c/''"
    by code_simp+
  show ?thesis
    using rule2_corrects_rightmost_only [OF h] h(1-3) unfolding e by simp
qed

text \<open>
  Claim C3, as the specification words it: with two over-escaped sequences on a line,
  two iterations correct the line. The line \<^verbatim>\<open>x = /a\\\/b\\/c/;\<close> holds two (the first
  after a third backslash); two iterations return \<^verbatim>\<open>x = /a\\/b\/c/;\<close>, where the first
  correction has made a new over-escaped sequence out of the backslash before it.
\<close>

theorem two_over_escaped_not_always_corrected:
  "count_over_escaped (''x = /a'' @ [backslash] @ over_escaped @ ''b'' @ over_escaped @ ''c/;'') = 2
   \<and> rewrite_loop 2 (''x = /a'' @ [backslash] @ over_escaped @ ''b'' @ over_escaped @ ''c/;'')
       = ''x = /a'' @ over_escaped @ ''b'' @ [backslash, CHR ''/''] @ ''c/;''
   \<and> count_over_escaped (rewrite_loop 2
        (''x = /a'' @ [backslash] @ over_escaped @ ''b'' @ over_escaped @ ''c/;'')) = 1"
  by code_simp

text \<open>
  Claim C3, amended. A line \<open>p\<close>, \<^verbatim>\<open>= /\<close>, \<open>a\<close>, sequence, \<open>b\<close>, sequence, \<open>w\<close>, standing
  anywhere in a text, that holds these two over-escaped sequences and no other, neither
  of them after a further backslash, and a slash in \<open>w\<close>: one iteration corrects the
  second and leaves one occurrence; every iteration count from two on returns the line
  with both corrected, which holds no occurrence. (The first rule is applied to the
  line as well, and the text around the line is rewritten by itself.)
\<close>

theorem two_over_escaped_need_two_passes:
  assumes "newline \<notin> set (p @ a @ b @ w)"
    and "count_over_escaped (p @ ''= /'' @ a @ over_escaped @ b @ over_escaped @ w) = 2"
    and "CHR ''/'' \<in> set w"
    and "a = [] \<or> last a \<noteq> backslash" and "b = [] \<or> last b \<noteq> backslash"
    and "line_start before" and "line_end tail"
  shows "rewrite_loop 1 (before @ (p @ ''= /'' @ a @ over_escaped @ b @ over_escaped @ w) @ tail)
           = rewrite_loop 1 before
               @ dotted_special_rule
                   (p @ ''= /'' @ a @ over_escaped @ b @ [backslash, CHR ''/''] @ w)
               @ rewrite_loop 1 tail
         \<and> count_over_escaped
             (dotted_special_rule
                (p @ ''= /'' @ a @ over_escaped @ b @ [backslash, CHR ''/''] @ w)) = 1
         \<and> (2 \<le> n \<longrightarrow>
              rewrite_loop n (before @ (p @ ''= /'' @ a @ over_escaped @ b @ over_escaped @ w) @ tail)
                = rewrite_loop n before
                    @ dotted_special_rule
                        (p @ ''= /'' @ a @ [backslash, CHR ''/''] @ b @ [backslash, CHR ''/''] @ w)
                    @ rewrite_loop n tail)
         \<and> count_over_escaped
             (dotted_special_rule
                (p @ ''= /'' @ a @ [backslash, CHR ''/''] @ b @ [backslash, CHR ''/''] @ w)) = 0"
proof (intro conjI impI)
  let ?line = "p @ ''= /'' @ a @ over_escaped @ b @ over_escaped @ w"
  note line = two_on_a_line [OF assms(1-5)]
  have "rewrite_loop 1 ?line
      = dotted_special_rule (p @ ''= /'' @ a @ over_escaped @ b @ [backslash, CHR ''/''] @ w)"
    unfolding loop_one by (rule line(1))
  then show "rewrite_loop 1 (before @ ?line @ tail)
           = rewrite_loop 1 before
               @ dotted_special_rule
                   (p @ ''= /'' @ a @ over_escaped @ b @ [backslash, CHR ''/''] @ w)
               @ rewrite_loop 1 tail"
    using loop_context [OF assms(6,7), of 1 ?line] by simp
  show "count_over_escaped
          (dotted_special_rule
             (p @ ''= /'' @ a @ over_escaped @ b @ [backslash, CHR ''/''] @ w)) = 1"
    by (rule line(2))
  show "count_over_escaped
          (dotted_special_rule
             (p @ ''= /'' @ a @ [backslash, CHR ''/''] @ b @ [backslash, CHR ''/''] @ w)) = 0"
    by (rule line(4))
  assume "2 \<le> n"
  then obtain m where m: "nat n = Suc (Suc m)"
    by (metis nat_2 nat_mono le_Suc_ex numeral_2_eq_2 plus_nat.simps(2) add_Suc)
  have "rewrite_loop n ?line
      = dotted_special_rule
          (p @ ''= /'' @ a @ [backslash, CHR ''/''] @ b @ [backslash, CHR ''/''] @ w)"
    unfolding loop_as_passes m by (rule line(3))
  then show "rewrite_loop n (before @ ?line @ tail)
           = rewrite_loop n before
               @ dotted_special_rule
                   (p @ ''= /'' @ a @ [backslash, CHR ''/''] @ b @ [backslash, CHR ''/''] @ w)
               @ rewrite_loop n tail"
    using loop_context [OF assms(6,7), of n ?line] by simp
qed

theorem two_over_escaped_need_two_passes_witness:
  "newline \<notin> set (''x '' @ ''a'' @ ''b'' @ ''c/;'')
   \<and> count_over_escaped (''x '' @ ''= /'' @ ''a'' @ over_escaped @ ''b'' @ over_escaped @ ''c/;'') = 2
   \<and> CHR ''/'' \<in> set ''c/;'' \<and> last ''a'' \<noteq> backslash \<and> last ''b'' \<noteq> backslash
   \<and> last (''y.@@k;'' @ [newline]) = newline
   \<and> rewrite_loop 1 ((''y.@@k;'' @ [newline])
         @ (''x '' @ ''= /'' @ ''a'' @ over_escaped @ ''b'' @ over_escaped @ ''c/;'') @ [])
       = (''y[`@@k`];'' @ [newline])
           @ (''x = /a'' @ over_escaped @ ''b'' @ [backslash, CHR ''/''] @ ''c/;'') @ []
   \<and> rewrite_loop 5 ((''y.@@k;'' @ [newline])
         @ (''x '' @ ''= /'' @ ''a'' @ over_escaped @ ''b'' @ over_escaped @ ''c/;'') @ [])
       = (''y[`@@k`];'' @ [newline])
           @ (''x = /a'' @ [backslash, CHR ''/''] @ ''b'' @ [backslash, CHR ''/''] @ ''c/;'') @ []"
proof -
  have h: "newline \<notin> set (''x '' @ ''a'' @ ''b'' @ ''c/;'')"
    "count_over_escaped (''x '' @ ''= /'' @ ''a'' @ over_escaped @ ''b'' @ over_escaped @ ''c/;'') = 2"
    "CHR ''/'' \<in> set ''c/;''"
    "''a'' = [] \<or> last ''a'' \<noteq> backslash" "''b'' = [] \<or> last ''b'' \<noteq> backslash"
    "line_start (''y.@@k;'' @ [newline])" "line_end []"
    by simp_all
  have e: "dotted_special_rule (''x '' @ ''= /'' @ ''a'' @ over_escaped @ ''b'' @ [backslash, CHR ''/''] @ ''c/;'')
        = ''x = /a'' @ over_escaped @ ''b'' @ [backslash, CHR ''/''] @ ''c/;''"
    "dotted_special_rule (''x '' @ ''= /'' @ ''a'' @ [backslash, CHR ''/''] @ ''b'' @ [backslash, CHR ''/''] @ ''c/;'')
        = ''x = /a'' @ [backslash, CHR ''/''] @ ''b'' @ [backslash, CHR ''/''] @ ''c/;''"
    by code_simp+
  have b: "rewrite_loop 1 (''y.@@k;'' @ [newline]) = ''y[`@@k`];'' @ [newline]"
    "rewrite_loop 5 (''y.@@k;'' @ [newline]) = ''y[`@@k`];'' @ [newline]"
    by code_simp+
  have t: "rewrite_loop 1 [] = []" "rewrite_loop 5 [] = []" "(2::int) \<le> 5"
    by simp_all
  show ?thesis
    using two_over_escaped_need_two_passes [OF h, of 5] h(1-3) unfolding e b t by simp
qed

end
